theory Spec2Isabelle
  imports Main
begin

section \<open>Values of the translation engine\<close>

text \<open>
  The file \<^verbatim>\<open>src/I18nProvider.tsx\<close> works on plain JavaScript data: dictionaries are
  trees parsed from JSON, queries map placeholder names to strings or numbers.
  A value is a string, a number, a boolean, \<^verbatim>\<open>null\<close> or an object; an object is the
  list of its own properties in the order of \<^verbatim>\<open>Object.keys\<close>, with distinct names
  (an array is the object of its indices).  \<^verbatim>\<open>undefined\<close> is \<open>None\<close> of an option type.

  Scope of the model:
  \<^item> a character is one UTF-16 code unit below 256;
  \<^item> a number is an integer whose \<^verbatim>\<open>String(n)\<close> is its decimal numeral (no NaN,
    no fraction, no exponent notation);
  \<^item> property access sees own properties only (and the index and length properties of
    a string): members inherited from a prototype, such as \<^verbatim>\<open>constructor\<close>, are not
    modelled;
  \<^item> the logger is a side channel that does not change the value returned; it is
    left out.
\<close>

datatype jsval =
    JStr string
  | JNum int
  | JBool bool
  | JNull
  | JObj "(string \<times> jsval) list"

text \<open>
  Modelled from the spec: the type \<^verbatim>\<open>TranslationQuery\<close> is declared outside the source
  file.  A query is a mapping from placeholder name to a value of string or number
  type, which may include a \<^verbatim>\<open>count\<close> field of numeric type; here the list of its
  entries in iteration order.  \<^verbatim>\<open>TranslationQuery | null | undefined\<close> is
  \<open>query option\<close>.
\<close>

type_synonym query = "(string \<times> jsval) list"

fun truthy :: "jsval \<Rightarrow> bool" where
  "truthy (JStr s) = (s \<noteq> [])"
| "truthy (JNum n) = (n \<noteq> 0)"
| "truthy (JBool b) = b"
| "truthy JNull = False"
| "truthy (JObj kvs) = True"

fun is_string :: "jsval \<Rightarrow> bool" where
  "is_string (JStr s) = True"
| "is_string v = False"

text \<open>\<^verbatim>\<open>value instanceof Object\<close>\<close>

fun instanceof_Object :: "jsval \<Rightarrow> bool" where
  "instanceof_Object (JObj kvs) = True"
| "instanceof_Object v = False"

subsection \<open>Numbers and strings\<close>

definition digit_char :: "nat \<Rightarrow> char" where
  "digit_char d = ''0123456789'' ! (d mod 10)"

fun nat_str :: "nat \<Rightarrow> string" where
  "nat_str n = (if n < 10 then [digit_char n] else nat_str (n div 10) @ [digit_char n])"

declare nat_str.simps [simp del]

definition num_str :: "int \<Rightarrow> string" where
  "num_str i = (if i < 0 then CHR ''-'' # nat_str (nat (- i)) else nat_str (nat i))"

text \<open>\<^verbatim>\<open>`${v}`\<close>, the string form of a value inside a template literal.\<close>

fun to_string :: "jsval \<Rightarrow> string" where
  "to_string (JStr s) = s"
| "to_string (JNum n) = num_str n"
| "to_string (JBool b) = (if b then ''true'' else ''false'')"
| "to_string JNull = ''null''"
| "to_string (JObj kvs) = ''[object Object]''"

text \<open>\<^verbatim>\<open>`${key}`\<close> for a key that may be \<^verbatim>\<open>undefined\<close>.\<close>

fun key_str :: "string option \<Rightarrow> string" where
  "key_str None = ''undefined''"
| "key_str (Some k) = k"

text \<open>\<^verbatim>\<open>s.split(c)\<close> for a one-character separator: never the empty list.\<close>

fun split_on :: "char \<Rightarrow> string \<Rightarrow> string list" where
  "split_on c [] = [] # []"
| "split_on c (x # xs) =
     (if x = c then [] # split_on c xs
      else (case split_on c xs of [] \<Rightarrow> [x] # [] | w # ws \<Rightarrow> (x # w) # ws))"

subsection \<open>Property access\<close>

text \<open>
  \<^verbatim>\<open>val[key]\<close>.  On an object: the own property.  On a string: \<^verbatim>\<open>length\<close> and the
  characters at canonical indices.  On a number or a boolean: nothing.  The code never
  indexes \<^verbatim>\<open>null\<close> or \<^verbatim>\<open>undefined\<close>, because every value it indexes is truthy.
\<close>

fun getprop :: "jsval \<Rightarrow> string \<Rightarrow> jsval option" where
  "getprop (JObj kvs) k = map_of kvs k"
| "getprop (JStr s) k =
     (if k = ''length'' then Some (JNum (int (length s)))
      else (case List.find (\<lambda>i. nat_str i = k) [0 ..< length s] of
              None \<Rightarrow> None
            | Some i \<Rightarrow> Some (JStr [s ! i])))"
| "getprop v k = None"

section \<open>getDicValue\<close>

datatype fallback_opt = NoFallback | OneFallback string | Fallbacks "string list"

text \<open>
  \<^verbatim>\<open>{ returnObjects?: boolean; fallback?: string | string[] }\<close>; an absent
  \<^verbatim>\<open>returnObjects\<close> is \<open>False\<close>, the only way the code reads it.
\<close>

record options =
  returnObjects :: bool
  fallback :: fallback_opt

text \<open>The fold of lines 25-30: \<^verbatim>\<open>(val, key) => val[key] || {}\<close> over the segments.\<close>

definition step_into :: "string \<Rightarrow> jsval \<Rightarrow> jsval" where
  "step_into seg val =
     (case getprop val seg of
        None \<Rightarrow> JObj []
      | Some v \<Rightarrow> if truthy v then v else JObj [])"

definition navigate :: "jsval \<Rightarrow> string \<Rightarrow> jsval" where
  "navigate dic key = fold step_into (split_on CHR ''.'' key) dic"

text \<open>
  The parameter defaults: \<^verbatim>\<open>key = ''\<close> and \<^verbatim>\<open>options = { returnObjects: false }\<close>
  replace an \<^verbatim>\<open>undefined\<close> argument.
\<close>

definition key_or_default :: "string option \<Rightarrow> string" where
  "key_or_default key = (case key of None \<Rightarrow> [] | Some k \<Rightarrow> k)"

definition wants_objects :: "options option \<Rightarrow> bool" where
  "wants_objects opts = (case opts of None \<Rightarrow> False | Some opt \<Rightarrow> returnObjects opt)"

definition getDicValue :: "jsval \<Rightarrow> string option \<Rightarrow> options option \<Rightarrow> jsval option" where
  "getDicValue dic key opts =
     (let v = navigate dic (key_or_default key)
      in if is_string v \<or> (instanceof_Object v \<and> wants_objects opts) then Some v else None)"

section \<open>plural\<close>

text \<open>
  \<open>pluralRules\<close> is \<^verbatim>\<open>Intl.PluralRules(lang).select\<close>, a parameter.  Both probes call
  \<open>getDicValue\<close> with two arguments, so with the default options.
\<close>

definition plural ::
  "(int \<Rightarrow> string) \<Rightarrow> jsval \<Rightarrow> string option \<Rightarrow> query option \<Rightarrow> string option" where
  "plural pluralRules dic key q =
     (case q of
        None \<Rightarrow> key
      | Some qm \<Rightarrow>
         (case map_of qm ''count'' of
            Some (JNum count) \<Rightarrow>
              (let numKey = key_str key @ ''_'' @ num_str count
               in if getDicValue dic (Some numKey) None \<noteq> None then Some numKey
                  else
                    (let pluralKey = key_str key @ ''_'' @ pluralRules count
                     in if count > 1 \<and> getDicValue dic (Some pluralKey) None \<noteq> None
                        then Some pluralKey
                        else key))
          | _ \<Rightarrow> key))"

section \<open>interpolation\<close>

text \<open>
  The pattern is \<^verbatim>\<open>escapeRegex(prefix) \s* varKey \s* escapeRegex(suffix)\<close> with the
  flags \<^verbatim>\<open>gm\<close>.  The escaping makes the delimiters literal.  The query key is pasted
  into the pattern as it is: the model matches it literally, which is what the pattern
  does when the key has no character of regular-expression syntax (\<open>regex_free\<close>).
  What is proved about the text a key matches is proved for such keys.
\<close>

definition regex_syntax :: "char set" where
  "regex_syntax = set (CHR 0x5C # ''^$.*+?()[]{}|'')"

definition regex_free :: "string \<Rightarrow> bool" where
  "regex_free k = (\<forall>c \<in> set k. c \<notin> regex_syntax)"

text \<open>\<^verbatim>\<open>\s\<close> on code units below 256: TAB, LF, VT, FF, CR, space, NBSP.\<close>

definition is_space :: "char \<Rightarrow> bool" where
  "is_space c = (c \<in> {CHR 0x09, CHR 0x0A, CHR 0x0B, CHR 0x0C, CHR 0x0D, CHR 0x20, CHR 0xA0})"

text \<open>A literal at the head of the text: the rest of the text after it.\<close>

fun lit :: "string \<Rightarrow> string \<Rightarrow> string option" where
  "lit [] s = Some s"
| "lit (p # ps) [] = None"
| "lit (p # ps) (c # cs) = (if p = c then lit ps cs else None)"

text \<open>
  Greedy \<^verbatim>\<open>\s*\<close> followed by the rest of the pattern \<open>k\<close>: the longest run of white
  space first, giving characters back while the rest fails.
\<close>

fun ws_star :: "(string \<Rightarrow> string option) \<Rightarrow> string \<Rightarrow> string option" where
  "ws_star k [] = k []"
| "ws_star k (c # cs) =
     (if is_space c
      then (case ws_star k cs of Some r \<Rightarrow> Some r | None \<Rightarrow> k (c # cs))
      else k (c # cs))"

text \<open>The part \<^verbatim>\<open>varKey \s* suffix\<close> of the pattern.\<close>

definition key_then_suffix :: "string \<Rightarrow> string \<Rightarrow> string \<Rightarrow> string option" where
  "key_then_suffix varKey suffix s =
     (case lit varKey s of
        None \<Rightarrow> None
      | Some s' \<Rightarrow> ws_star (lit suffix) s')"

text \<open>The pattern anchored at the head of \<open>s\<close>: the text left after the match.\<close>

definition match_here :: "string \<Rightarrow> string \<Rightarrow> string \<Rightarrow> string \<Rightarrow> string option" where
  "match_here prefix varKey suffix s =
     (case lit prefix s of
        None \<Rightarrow> None
      | Some s' \<Rightarrow> ws_star (key_then_suffix varKey suffix) s')"

text \<open>
  The replacement text of \<^verbatim>\<open>String.prototype.replace\<close> is a template: \<^verbatim>\<open>$$\<close> is a
  dollar sign, \<^verbatim>\<open>$&\<close> the match, \<^verbatim>\<open>$`\<close> the text before it, \<^verbatim>\<open>$'\<close> the text after
  it.  The pattern has no capture group, so every other \<^verbatim>\<open>$\<close> stands for itself.
\<close>

fun expand :: "string \<Rightarrow> string \<Rightarrow> string \<Rightarrow> string \<Rightarrow> string" where
  "expand matched preceding following (c # d # r) =
     (if c = CHR ''$'' then
        (if d = CHR ''$'' then CHR ''$'' # expand matched preceding following r
         else if d = CHR ''&'' then matched @ expand matched preceding following r
         else if d = CHR 0x60 then preceding @ expand matched preceding following r
         else if d = CHR 0x27 then following @ expand matched preceding following r
         else c # expand matched preceding following (d # r))
      else c # expand matched preceding following (d # r))"
| "expand matched preceding following r = r"

text \<open>
  \<^verbatim>\<open>all.replace(regex, replacement)\<close> with the global flag: scan from the left; a
  match is replaced and the scan goes on after it; an empty match is replaced and the
  scan moves one character on.
\<close>

function replace_from ::
  "string \<Rightarrow> string \<Rightarrow> string \<Rightarrow> string \<Rightarrow> string \<Rightarrow> string \<Rightarrow> string" where
  "replace_from prefix varKey suffix repl preceding s =
     (case match_here prefix varKey suffix s of
        Some rest \<Rightarrow>
          if length rest < length s then
            (let matched = take (length s - length rest) s
             in expand matched preceding rest repl
                @ replace_from prefix varKey suffix repl (preceding @ matched) rest)
          else
            expand [] preceding s repl
            @ (case s of
                 [] \<Rightarrow> []
               | c # cs \<Rightarrow> c # replace_from prefix varKey suffix repl (preceding @ [c]) cs)
      | None \<Rightarrow>
          (case s of
             [] \<Rightarrow> []
           | c # cs \<Rightarrow> c # replace_from prefix varKey suffix repl (preceding @ [c]) cs))"
  by pat_completeness auto
termination
  by (relation "measure (\<lambda>(prefix, varKey, suffix, repl, preceding, s). length s)") auto

declare replace_from.simps [simp del]

definition replace_all :: "string \<Rightarrow> string \<Rightarrow> string \<Rightarrow> string \<Rightarrow> string \<Rightarrow> string" where
  "replace_all prefix varKey suffix repl s = replace_from prefix varKey suffix repl [] s"

text \<open>
  Modelled from the spec: the type \<^verbatim>\<open>I18nConfig\<close> is declared outside the source file.
  The configuration holds the optional interpolation delimiters, which default to
  \<^verbatim>\<open>{{\<close> and \<^verbatim>\<open>}}\<close>, and a logger, left out here.
\<close>

record i18n_config =
  delimiters :: "(string \<times> string) option"

definition delims :: "i18n_config \<Rightarrow> string \<times> string" where
  "delims config = (case delimiters config of None \<Rightarrow> (''{{'', ''}}'') | Some d \<Rightarrow> d)"

definition interpolation :: "i18n_config \<Rightarrow> string option \<Rightarrow> query option \<Rightarrow> string" where
  "interpolation config text q =
     (case text of
        None \<Rightarrow> []
      | Some tx \<Rightarrow>
          if tx = [] then []
          else (case q of
                  None \<Rightarrow> tx
                | Some qm \<Rightarrow>
                    fold (\<lambda>(varKey, v) all.
                            replace_all (fst (delims config)) varKey (snd (delims config))
                              (to_string v) all)
                         qm tx))"

section \<open>objectInterpolation\<close>

text \<open>
  The code rewrites the string leaves of the object in place and returns the object;
  the model returns the rewritten object.  (The dictionary the object came from is
  changed too; no later step of the same call reads it.)
\<close>

fun objectInterpolation :: "i18n_config \<Rightarrow> jsval \<Rightarrow> query option \<Rightarrow> jsval" where
  "objectInterpolation config obj q =
     (if q = None \<or> q = Some [] then obj
      else (case obj of
              JObj kvs \<Rightarrow>
                JObj (map (\<lambda>kv.
                        (fst kv,
                         (case snd kv of
                            JObj sub \<Rightarrow> objectInterpolation config (snd kv) q
                          | JStr s \<Rightarrow> JStr (interpolation config (Some s) q)
                          | other \<Rightarrow> other))) kvs)
            | other \<Rightarrow> other))"

section \<open>The resolver t\<close>

text \<open>
  \<^verbatim>\<open>k.split(/:(.+)/)\<close>, first two elements: the text before the first colon that is
  followed by a character other than a line terminator, and the run of such characters
  after it.  Without such a colon the whole key is the namespace and the leaf key is
  \<^verbatim>\<open>undefined\<close>.
\<close>

definition is_line_terminator :: "char \<Rightarrow> bool" where
  "is_line_terminator c = (c = CHR 0x0A \<or> c = CHR 0x0D)"

fun split_key :: "string \<Rightarrow> string \<times> string option" where
  "split_key (c # d # cs) =
     (if c = CHR '':'' \<and> \<not> is_line_terminator d
      then ([], Some (takeWhile (\<lambda>x. \<not> is_line_terminator x) (d # cs)))
      else (case split_key (d # cs) of (ns, leaf) \<Rightarrow> (c # ns, leaf)))"
| "split_key s = (s, None)"

text \<open>\<^verbatim>\<open>allNamespaces[namespace] || {}\<close>\<close>

definition dic_of :: "(string \<rightharpoonup> jsval) \<Rightarrow> string \<Rightarrow> jsval" where
  "dic_of allNamespaces namespace =
     (case allNamespaces namespace of
        None \<Rightarrow> JObj []
      | Some d \<Rightarrow> if truthy d then d else JObj [])"

text \<open>Lines 153-156: the value looked up for a key.\<close>

definition lookup_value ::
  "(string \<rightharpoonup> jsval) \<Rightarrow> (int \<Rightarrow> string) \<Rightarrow> string \<Rightarrow> query option \<Rightarrow> options option
     \<Rightarrow> jsval option" where
  "lookup_value allNamespaces pluralRules k q opts =
     (case split_key k of
        (namespace, i18nKey) \<Rightarrow>
          (let dic = dic_of allNamespaces namespace;
               keyWithPlural = plural pluralRules dic i18nKey q
           in getDicValue dic keyWithPlural opts))"

text \<open>
  Lines 158-160, the constant \<^verbatim>\<open>empty\<close>.  \<open>getDicValue\<close> returns a string, an object
  or \<^verbatim>\<open>undefined\<close>.
\<close>

fun empty_val :: "jsval option \<Rightarrow> bool" where
  "empty_val None = True"
| "empty_val (Some (JObj kvs)) = (kvs = [])"
| "empty_val (Some v) = False"

text \<open>Lines 162-165: a single string is a chain of one.\<close>

definition fallbacks_of :: "options option \<Rightarrow> string list" where
  "fallbacks_of opts =
     (case opts of
        None \<Rightarrow> []
      | Some opt \<Rightarrow>
          (case fallback opt of
             NoFallback \<Rightarrow> []
           | OneFallback s \<Rightarrow> [s]
           | Fallbacks fs \<Rightarrow> fs))"

text \<open>\<^verbatim>\<open>{ ...options, fallback: restFallbacks }\<close>\<close>

definition with_fallback :: "options option \<Rightarrow> string list \<Rightarrow> options option" where
  "with_fallback opts rest =
     (case opts of
        None \<Rightarrow> Some \<lparr>returnObjects = False, fallback = Fallbacks rest\<rparr>
      | Some opt \<Rightarrow> Some (opt\<lparr>fallback := Fallbacks rest\<rparr>))"

text \<open>Lines 180-188: what is returned once no fallback is taken.\<close>

definition finish :: "i18n_config \<Rightarrow> string \<Rightarrow> query option \<Rightarrow> jsval option \<Rightarrow> jsval" where
  "finish config k q v =
     (case v of
        Some (JObj kvs) \<Rightarrow> objectInterpolation config (JObj kvs) q
      | _ \<Rightarrow>
          (let r = interpolation config (case v of Some (JStr s) \<Rightarrow> Some s | _ \<Rightarrow> None) q
           in JStr (if r = [] then k else r)))"

text \<open>
  The function \<open>t\<close> of lines 147-189.  The namespace registry, the plural rules and the
  configuration are variables of the enclosing component, parameters here.  The
  elements of the fallback chain are strings by the type of the options, so the test
  of line 175 holds.
\<close>

function t ::
  "(string \<rightharpoonup> jsval) \<Rightarrow> (int \<Rightarrow> string) \<Rightarrow> i18n_config \<Rightarrow> string \<Rightarrow> query option
     \<Rightarrow> options option \<Rightarrow> jsval" where
  "t allNamespaces pluralRules config k q opts =
     (let v = lookup_value allNamespaces pluralRules k q opts
      in (case fallbacks_of opts of
            firstFallback # restFallbacks \<Rightarrow>
              if empty_val v
              then t allNamespaces pluralRules config firstFallback q
                     (with_fallback opts restFallbacks)
              else finish config k q v
          | [] \<Rightarrow> finish config k q v))"
  by pat_completeness auto
termination
  by (relation "measure (\<lambda>(allNamespaces, pluralRules, config, k, q, opts).
                  length (fallbacks_of opts))")
     (auto simp: fallbacks_of_def with_fallback_def split: option.splits)

text \<open>The number of nested activations of \<open>t\<close> in one call.\<close>

function t_depth ::
  "(string \<rightharpoonup> jsval) \<Rightarrow> (int \<Rightarrow> string) \<Rightarrow> string \<Rightarrow> query option \<Rightarrow> options option
     \<Rightarrow> nat" where
  "t_depth allNamespaces pluralRules k q opts =
     (let v = lookup_value allNamespaces pluralRules k q opts
      in (case fallbacks_of opts of
            firstFallback # restFallbacks \<Rightarrow>
              if empty_val v
              then Suc (t_depth allNamespaces pluralRules firstFallback q
                          (with_fallback opts restFallbacks))
              else 1
          | [] \<Rightarrow> 1))"
  by pat_completeness auto
termination
  by (relation "measure (\<lambda>(allNamespaces, pluralRules, k, q, opts).
                  length (fallbacks_of opts))")
     (auto simp: fallbacks_of_def with_fallback_def split: option.splits)

section \<open>The value stored at a key\<close>

text \<open>
  What the specification calls the value at a dotted key of a dictionary: the own
  property reached by descending through nested objects, segment by segment.  It is
  the reference the lookup of the code is compared with.
\<close>

fun value_at :: "jsval \<Rightarrow> string list \<Rightarrow> jsval option" where
  "value_at v [] = Some v"
| "value_at (JObj kvs) (seg # segs) =
     (case map_of kvs seg of None \<Rightarrow> None | Some v \<Rightarrow> value_at v segs)"
| "value_at v (seg # segs) = None"

definition stored_at :: "jsval \<Rightarrow> string \<Rightarrow> jsval option" where
  "stored_at dic key = value_at dic (split_on CHR ''.'' key)"

section \<open>Templates\<close>

text \<open>
  What the specification calls a text with placeholders, for the default delimiters:
  a sequence of literal runs without an opening brace and of placeholders
  \<^verbatim>\<open>{{ name }}\<close>, each with its white space inside the delimiters.  \<open>render\<close> is the
  text; \<open>fill\<close> is the text the specification asks for: a placeholder whose name is a
  key of the query gives way to the string form of its value, any other placeholder
  stays as written.  \<open>occurs\<close> says that the pattern of a query key matches somewhere
  in a text.
\<close>

datatype piece = Lit string | Hole string string string

fun render_piece :: "piece \<Rightarrow> string" where
  "render_piece (Lit s) = s"
| "render_piece (Hole w1 name w2) = ''{{'' @ w1 @ name @ w2 @ ''}}''"

definition render :: "piece list \<Rightarrow> string" where
  "render ps = concat (map render_piece ps)"

fun subst_piece :: "query \<Rightarrow> piece \<Rightarrow> piece" where
  "subst_piece q (Lit s) = Lit s"
| "subst_piece q (Hole w1 name w2) =
     (case map_of q name of
        Some v \<Rightarrow> Lit (to_string v)
      | None \<Rightarrow> Hole w1 name w2)"

definition fill :: "query \<Rightarrow> piece list \<Rightarrow> string" where
  "fill q ps = render (map (subst_piece q) ps)"

definition blank :: "string \<Rightarrow> bool" where
  "blank w = list_all is_space w"

text \<open>A name with no white space and no character of regular-expression syntax.\<close>

definition plain_name :: "string \<Rightarrow> bool" where
  "plain_name n = (n \<noteq> [] \<and> regex_free n \<and> list_all (\<lambda>c. \<not> is_space c) n)"

fun wf_piece :: "piece \<Rightarrow> bool" where
  "wf_piece (Lit s) = (CHR ''{'' \<notin> set s)"
| "wf_piece (Hole w1 name w2) = (blank w1 \<and> plain_name name \<and> blank w2)"

definition wf_template :: "piece list \<Rightarrow> bool" where
  "wf_template ps = list_all wf_piece ps"

text \<open>
  Query keys are plain names; the string forms of the values have no dollar sign (the
  replacement text is a template of its own) and no opening brace.
\<close>

definition wf_query :: "query \<Rightarrow> bool" where
  "wf_query q =
     list_all (\<lambda>(x, v). plain_name x
                 \<and> CHR ''$'' \<notin> set (to_string v) \<and> CHR ''{'' \<notin> set (to_string v)) q"

fun occurs :: "string \<Rightarrow> string \<Rightarrow> string \<Rightarrow> string \<Rightarrow> bool" where
  "occurs prefix varKey suffix [] = (match_here prefix varKey suffix [] \<noteq> None)"
| "occurs prefix varKey suffix (c # cs) =
     (match_here prefix varKey suffix (c # cs) \<noteq> None \<or> occurs prefix varKey suffix cs)"

section \<open>Sample data\<close>

definition sample_dic :: jsval where
  "sample_dic =
     JObj [(''greeting'', JStr ''Hello {{name}}''),
           (''apples_1'', JStr ''one apple''),
           (''apples_other'', JStr ''{{count}} apples''),
           (''pears_5'', JObj [(''label'', JStr ''five pears'')]),
           (''pears_other'', JStr ''{{count}} pears''),
           (''plums_3'', JStr ''three plums''),
           (''plums_other'', JStr ''{{count}} plums''),
           (''plums_one'', JStr ''a plum''),
           (''figs'', JStr ''figs''),
           (''figs_2'', JObj [(''label'', JStr ''two figs'')]),
           (''kiwis'', JStr ''kiwis''),
           (''kiwis_3'', JStr []),
           (''kiwis_other'', JStr ''many kiwis''),
           (''limes'', JStr ''limes''),
           (''limes_other'', JStr []),
           (''dates'', JStr ''some dates''),
           (''dates_other'', JObj [(''label'', JStr ''dates'')]),
           (''blank'', JStr []),
           (''menu'', JObj [(''title'', JStr ''Menu''), (''blank'', JStr [])])]"

definition sample_namespaces :: "string \<rightharpoonup> jsval" where
  "sample_namespaces = [''common'' \<mapsto> sample_dic]"

text \<open>The plural categories of English.\<close>

definition sample_rules :: "int \<Rightarrow> string" where
  "sample_rules n = (if n = 1 then ''one'' else ''other'')"

definition default_config :: i18n_config where
  "default_config = \<lparr>delimiters = None\<rparr>"

definition sample_template :: "piece list" where
  "sample_template =
     [Lit ''Dear '', Hole [] ''name'' [], Lit '', you owe '', Hole '' '' ''sum'' '' '',
      Lit '' to '', Hole [] ''whom'' [], Lit '' and '', Hole [] ''name'' ''  '', Lit ''.'']"

definition sample_query :: query where
  "sample_query = [(''name'', JStr ''Ana''), (''sum'', JNum 12)]"

section \<open>Properties\<close>

subsection \<open>Unfolding the resolver\<close>

declare t.simps [simp del] t_depth.simps [simp del]

lemma fallbacks_of_with_fallback: "fallbacks_of (with_fallback opts rest) = rest"
  by (simp add: fallbacks_of_def with_fallback_def split: option.splits)

lemma wants_objects_with_fallback: "wants_objects (with_fallback opts rest) = wants_objects opts"
  by (simp add: wants_objects_def with_fallback_def split: option.splits)

lemma lookup_value_wants:
  "wants_objects o1 = wants_objects o2 \<Longrightarrow>
   lookup_value reg pr k q o1 = lookup_value reg pr k q o2"
  by (simp add: lookup_value_def getDicValue_def split: prod.splits)

lemma t_no_fallback: "fallbacks_of opts = [] \<Longrightarrow>
  t reg pr cfg k q opts = finish cfg k q (lookup_value reg pr k q opts)"
  by (subst t.simps) simp

lemma t_found: "\<not> empty_val (lookup_value reg pr k q opts) \<Longrightarrow>
  t reg pr cfg k q opts = finish cfg k q (lookup_value reg pr k q opts)"
  by (subst t.simps) (simp add: Let_def split: list.splits)

lemma t_fallback: "empty_val (lookup_value reg pr k q opts) \<Longrightarrow> fallbacks_of opts = f # rest \<Longrightarrow>
  t reg pr cfg k q opts = t reg pr cfg f q (with_fallback opts rest)"
  by (subst t.simps) (simp add: Let_def)

lemma finish_undefined: "finish cfg k q None = JStr k"
  by (simp add: finish_def interpolation_def)

lemma finish_empty_object: "finish cfg k q (Some (JObj [])) = JObj []"
  by (simp add: finish_def)

lemma split_on_not_Nil: "split_on c s \<noteq> []"
  by (induction s) (auto split: list.splits)

lemma fold_step_into_value_at:
  "value_at d segs = Some v \<Longrightarrow> segs \<noteq> [] \<Longrightarrow>
   fold step_into segs d = (if truthy v then v else JObj [])"
proof (induction d segs rule: value_at.induct)
  case (1 v)
  then show ?case by simp
next
  case (2 kvs seg segs)
  then obtain w where w: "map_of kvs seg = Some w" and rest: "value_at w segs = Some v"
    by (auto split: option.splits)
  show ?case
  proof (cases segs)
    case Nil
    with w rest show ?thesis by (simp add: step_into_def)
  next
    case (Cons s ss)
    with rest obtain sub where "w = JObj sub" by (cases w) auto
    with w have "step_into seg (JObj kvs) = w" by (simp add: step_into_def)
    with "2.IH" [OF w rest] Cons show ?thesis by simp
  qed
qed simp_all

lemma navigate_stored:
  "stored_at dic key = Some v \<Longrightarrow> navigate dic key = (if truthy v then v else JObj [])"
  unfolding stored_at_def navigate_def
  by (rule fold_step_into_value_at) (simp_all add: split_on_not_Nil)

lemma fold_step_into_empty: "fold step_into segs (JObj []) = JObj []"
  by (induction segs) (simp_all add: step_into_def)

lemma navigate_empty_dic: "navigate (JObj []) key = JObj []"
  by (simp add: navigate_def fold_step_into_empty)

lemma getDicValue_empty_dic:
  "getDicValue (JObj []) key opts = (if wants_objects opts then Some (JObj []) else None)"
  by (simp add: getDicValue_def navigate_empty_dic)

lemma plural_empty_dic: "plural pr (JObj []) key q = key"
  by (simp add: plural_def getDicValue_empty_dic wants_objects_def Let_def
      split: option.splits jsval.splits)

lemma lookup_value_no_namespaces:
  "lookup_value Map.empty pr k q opts = (if wants_objects opts then Some (JObj []) else None)"
  by (simp add: lookup_value_def dic_of_def plural_empty_dic getDicValue_empty_dic
      split: prod.splits)

subsection \<open>Matching and replacing\<close>

lemma expand_no_dollar: "CHR ''$'' \<notin> set r \<Longrightarrow> expand m b a r = r"
  by (induction m b a r rule: expand.induct) auto

lemma lit_take_drop:
  "lit p s = (if take (length p) s = p then Some (drop (length p) s) else None)"
  by (induction p s rule: lit.induct) auto

lemma lit_append: "lit p (p @ s) = Some s"
  by (simp add: lit_take_drop)

lemma lit_head_differs: "p \<noteq> [] \<Longrightarrow> s = [] \<or> hd s \<noteq> hd p \<Longrightarrow> lit p s = None"
  by (cases p; cases s) auto

lemma ws_star_no_space: "s = [] \<or> \<not> is_space (hd s) \<Longrightarrow> ws_star k s = k s"
  by (cases s) auto

lemma ws_star_skip:
  "\<forall>c \<in> set ws. is_space c \<Longrightarrow> s = [] \<or> \<not> is_space (hd s) \<Longrightarrow> k s = Some r \<Longrightarrow>
   ws_star k (ws @ s) = Some r"
  by (induction ws) (simp_all add: ws_star_no_space)

lemma ws_star_none:
  "\<forall>i \<le> length ws. k (drop i ws @ s) = None \<Longrightarrow> s = [] \<or> \<not> is_space (hd s) \<Longrightarrow>
   ws_star k (ws @ s) = None"
proof (induction ws)
  case Nil
  then show ?case by (simp add: ws_star_no_space)
next
  case (Cons w ws)
  from Cons.prems(1) have here: "k ((w # ws) @ s) = None"
    by (metis drop0 le0)
  have "\<forall>i \<le> length ws. k (drop i ws @ s) = None"
  proof (intro allI impI)
    fix i assume "i \<le> length ws"
    with Cons.prems(1) have "k (drop (Suc i) (w # ws) @ s) = None"
      by (metis Suc_le_mono length_Cons)
    then show "k (drop i ws @ s) = None" by simp
  qed
  with Cons have "ws_star k (ws @ s) = None" by simp
  with here show ?case by simp
qed

lemma replace_from_Nil:
  "match_here p x sfx [] = None \<Longrightarrow> replace_from p x sfx v pre [] = []"
  by (subst replace_from.simps) simp

lemma replace_from_no_match:
  "match_here p x sfx (c # cs) = None \<Longrightarrow>
   replace_from p x sfx v pre (c # cs) = c # replace_from p x sfx v (pre @ [c]) cs"
  by (subst replace_from.simps) simp

lemma replace_from_match:
  "match_here p x sfx s = Some rest \<Longrightarrow> length rest < length s \<Longrightarrow>
   replace_from p x sfx v pre s =
     expand (take (length s - length rest) s) pre rest v
     @ replace_from p x sfx v (pre @ take (length s - length rest) s) rest"
  by (subst replace_from.simps) (simp add: Let_def)

lemma match_here_head:
  "p \<noteq> [] \<Longrightarrow> s = [] \<or> hd s \<noteq> hd p \<Longrightarrow> match_here p x sfx s = None"
  by (simp add: match_here_def lit_head_differs)

text \<open>A text without the first character of the prefix has nothing to replace.\<close>

lemma replace_from_untouched:
  "p \<noteq> [] \<Longrightarrow> hd p \<notin> set u \<Longrightarrow>
   replace_from p x sfx v pre (u @ s) = u @ replace_from p x sfx v (pre @ u) s"
proof (induction u arbitrary: pre)
  case Nil
  then show ?case by simp
next
  case (Cons c u)
  then have "match_here p x sfx ((c # u) @ s) = None"
    by (intro match_here_head) auto
  with Cons show ?case by (simp add: replace_from_no_match)
qed

lemma replace_all_untouched:
  "p \<noteq> [] \<Longrightarrow> hd p \<notin> set s \<Longrightarrow> replace_all p x sfx v s = s"
  using replace_from_untouched [of p s x sfx v "[]" "[]"]
  by (simp add: replace_all_def replace_from_Nil match_here_head)

lemma replace_from_not_Nil:
  "s \<noteq> [] \<Longrightarrow> v \<noteq> [] \<Longrightarrow> CHR ''$'' \<notin> set v \<Longrightarrow> replace_from p x sfx v pre s \<noteq> []"
  by (subst replace_from.simps) (auto simp: Let_def expand_no_dollar split: option.splits list.splits)

lemma digit_char_digit: "digit_char d \<in> set ''0123456789''"
  unfolding digit_char_def by (rule nth_mem) simp

lemma nat_str_digits: "set (nat_str n) \<subseteq> set ''0123456789''"
proof (induction n rule: nat_str.induct)
  case (1 n)
  show ?case
  proof (cases "n < 10")
    case True
    then show ?thesis using digit_char_digit [of n] by (subst nat_str.simps) simp
  next
    case False
    with 1 digit_char_digit [of n] show ?thesis by (subst nat_str.simps) simp
  qed
qed

lemma nat_str_not_Nil: "nat_str n \<noteq> []"
  by (subst nat_str.simps) simp

lemma num_str_no_dollar: "CHR ''$'' \<notin> set (num_str i)"
  using nat_str_digits by (auto simp: num_str_def)

lemma num_str_not_Nil: "num_str i \<noteq> []"
  by (simp add: num_str_def nat_str_not_Nil)

subsection \<open>Termination of the resolver\<close>

text \<open>
  Claim C8.  The resolver terminates for every key, query and fallback chain: \<open>t\<close> is
  a total function, its recursion accepted with the length of the fallback chain as
  measure, and one call nests at least one and at most \<open>length chain + 1\<close>
  activations, since each fallback step hands on the chain without its first element.
\<close>

theorem t_depth_bounded:
  "1 \<le> t_depth reg pr k q opts \<and> t_depth reg pr k q opts \<le> length (fallbacks_of opts) + 1"
proof (induction reg pr k q opts rule: t_depth.induct)
  case (1 reg pr k q opts)
  show ?case
  proof (cases "fallbacks_of opts")
    case Nil
    then show ?thesis by (subst (1 2) t_depth.simps) simp
  next
    case (Cons f rest)
    show ?thesis
    proof (cases "empty_val (lookup_value reg pr k q opts)")
      case True
      from "1.IH" [OF refl Cons True]
      have "t_depth reg pr f q (with_fallback opts rest) \<le> length rest + 1"
        by (simp add: fallbacks_of_with_fallback)
      with Cons True show ?thesis by (subst (1 2) t_depth.simps) simp
    next
      case False
      with Cons show ?thesis by (subst (1 2) t_depth.simps) simp
    qed
  qed
qed

theorem t_depth_bounded_witness:
  "1 \<le> t_depth sample_namespaces sample_rules ''common:missing'' None
          (Some \<lparr>returnObjects = False, fallback = Fallbacks [''common:k1'', ''common:k2'']\<rparr>)
   \<and> t_depth sample_namespaces sample_rules ''common:missing'' None
          (Some \<lparr>returnObjects = False, fallback = Fallbacks [''common:k1'', ''common:k2'']\<rparr>)
       \<le> 3"
  using t_depth_bounded [of sample_namespaces sample_rules "''common:missing''" None
      "Some \<lparr>returnObjects = False, fallback = Fallbacks [''common:k1'', ''common:k2'']\<rparr>"]
  by (simp add: fallbacks_of_def)

text \<open>The bound is reached when every key of the chain resolves empty.\<close>

lemma t_depth_sample:
  "t_depth sample_namespaces sample_rules ''common:missing'' None
     (Some \<lparr>returnObjects = False, fallback = Fallbacks [''common:k1'', ''common:k2'']\<rparr>) = 3"
  by code_simp

subsection \<open>Object leaves without returnObjects\<close>

text \<open>
  Claim C7.  When the key looked up holds a non-string object and \<open>returnObjects\<close> is
  not set, the lookup yields \<^verbatim>\<open>undefined\<close>, exactly what it yields for a key that
  is missing (here: in a registry without any namespace); the result is classified
  empty; and the resolver goes on with the first fallback key, or returns the key
  itself when there is no fallback.
\<close>

theorem object_leaf_without_returnObjects:
  assumes "\<not> wants_objects opts"
    and "split_key k = (ns, leaf)"
    and "stored_at (dic_of reg ns) (key_or_default (plural pr (dic_of reg ns) leaf q)) = Some (JObj kvs)"
  shows "lookup_value reg pr k q opts = None
       \<and> lookup_value reg pr k q opts = lookup_value Map.empty pr k q opts
       \<and> empty_val (lookup_value reg pr k q opts)
       \<and> t reg pr cfg k q opts =
           (case fallbacks_of opts of
              [] \<Rightarrow> JStr k
            | f # rest \<Rightarrow> t reg pr cfg f q (with_fallback opts rest))"
proof -
  from assms(3) have "navigate (dic_of reg ns) (key_or_default (plural pr (dic_of reg ns) leaf q)) = JObj kvs"
    by (simp add: navigate_stored)
  with assms(1,2) have none: "lookup_value reg pr k q opts = None"
    by (simp add: lookup_value_def getDicValue_def)
  moreover from assms(1) have "lookup_value Map.empty pr k q opts = None"
    by (simp add: lookup_value_no_namespaces)
  moreover have "t reg pr cfg k q opts =
           (case fallbacks_of opts of
              [] \<Rightarrow> JStr k
            | f # rest \<Rightarrow> t reg pr cfg f q (with_fallback opts rest))"
  proof (cases "fallbacks_of opts")
    case Nil
    with none show ?thesis by (simp add: t_no_fallback finish_undefined)
  next
    case (Cons f rest)
    with none show ?thesis by (simp add: t_fallback)
  qed
  ultimately show ?thesis by simp
qed

theorem object_leaf_without_returnObjects_witness:
  "stored_at (dic_of sample_namespaces ''common'')
          (key_or_default (plural sample_rules (dic_of sample_namespaces ''common'') (Some ''menu'') None))
        = Some (JObj [(''title'', JStr ''Menu''), (''blank'', JStr [])])
   \<and> t sample_namespaces sample_rules default_config ''common:menu'' None None = JStr ''common:menu''
   \<and> t sample_namespaces sample_rules default_config ''common:menu'' None
        (Some \<lparr>returnObjects = False, fallback = OneFallback ''common:greeting''\<rparr>)
      = JStr ''Hello {{name}}''"
proof -
  have nav: "stored_at (dic_of sample_namespaces ''common'')
          (key_or_default (plural sample_rules (dic_of sample_namespaces ''common'') (Some ''menu'') None))
        = Some (JObj [(''title'', JStr ''Menu''), (''blank'', JStr [])])"
    by (simp add: stored_at_def dic_of_def sample_namespaces_def sample_dic_def plural_def
        key_or_default_def)
  have sk: "split_key ''common:menu'' = (''common'', Some ''menu'')"
    by (simp add: is_line_terminator_def)
  have a: "t sample_namespaces sample_rules default_config ''common:menu'' None None = JStr ''common:menu''"
    using object_leaf_without_returnObjects [OF _ sk nav, of None default_config]
    by (simp add: wants_objects_def fallbacks_of_def)
  have b: "t sample_namespaces sample_rules default_config ''common:menu'' None
        (Some \<lparr>returnObjects = False, fallback = OneFallback ''common:greeting''\<rparr>)
      = t sample_namespaces sample_rules default_config ''common:greeting'' None
        (Some \<lparr>returnObjects = False, fallback = Fallbacks []\<rparr>)"
    using object_leaf_without_returnObjects [OF _ sk nav,
        of "Some \<lparr>returnObjects = False, fallback = OneFallback ''common:greeting''\<rparr>" default_config]
    by (simp add: wants_objects_def fallbacks_of_def with_fallback_def)
  have c: "t sample_namespaces sample_rules default_config ''common:greeting'' None
        (Some \<lparr>returnObjects = False, fallback = Fallbacks []\<rparr>) = JStr ''Hello {{name}}''"
    by code_simp
  from nav a b c show ?thesis by simp
qed

subsection \<open>Values found by the lookup\<close>

lemma getDicValue_default_string:
  "\<not> wants_objects opts \<Longrightarrow> getDicValue dic key opts = Some v \<Longrightarrow> is_string v"
  by (auto simp: getDicValue_def Let_def split: if_splits)

lemma lookup_value_default_string:
  "\<not> wants_objects opts \<Longrightarrow> lookup_value reg pr k q opts = Some v \<Longrightarrow> is_string v"
  by (auto simp: lookup_value_def Let_def split: prod.splits dest: getDicValue_default_string)

lemma empty_val_default:
  "\<not> wants_objects opts \<Longrightarrow> empty_val (lookup_value reg pr k q opts) \<Longrightarrow>
   lookup_value reg pr k q opts = None"
  by (cases "lookup_value reg pr k q opts" rule: empty_val.cases)
     (auto dest: lookup_value_default_string)

lemma value_at_object:
  "value_at d segs = Some v \<Longrightarrow> segs \<noteq> [] \<Longrightarrow> \<exists>kvs. d = JObj kvs"
  by (cases d; cases segs) simp_all

lemma stored_at_object: "stored_at dic key = Some v \<Longrightarrow> \<exists>kvs. dic = JObj kvs"
  unfolding stored_at_def by (erule value_at_object) (simp add: split_on_not_Nil)

lemma dic_of_stored:
  "reg ns = Some dic \<Longrightarrow> stored_at dic key = Some v \<Longrightarrow> dic_of reg ns = dic"
  by (auto simp: dic_of_def dest: stored_at_object)

lemma finish_string_no_query: "s \<noteq> [] \<Longrightarrow> finish cfg k None (Some (JStr s)) = JStr s"
  by (simp add: finish_def interpolation_def)

subsection \<open>Empty strings in the dictionary\<close>

text \<open>
  Claim C10, as the code has it.  When the key looked up holds a falsy value, the
  empty string above all, the fold of \<open>getDicValue\<close> yields the empty mapping, the
  resolver classifies the result as empty and goes on with the first fallback key.
  With no fallback it returns the key itself, unless \<open>returnObjects\<close> is set: then it
  returns the empty mapping.  The empty string stored in the dictionary is not what
  comes back.
\<close>

theorem empty_string_leaf:
  assumes "split_key k = (ns, leaf)"
    and "stored_at (dic_of reg ns) (key_or_default (plural pr (dic_of reg ns) leaf q)) = Some v"
    and "\<not> truthy v"
  shows "navigate (dic_of reg ns) (key_or_default (plural pr (dic_of reg ns) leaf q)) = JObj []
       \<and> empty_val (lookup_value reg pr k q opts)
       \<and> t reg pr cfg k q opts =
           (case fallbacks_of opts of
              f # rest \<Rightarrow> t reg pr cfg f q (with_fallback opts rest)
            | [] \<Rightarrow> if wants_objects opts then JObj [] else JStr k)"
proof -
  from assms(2,3)
  have nav: "navigate (dic_of reg ns) (key_or_default (plural pr (dic_of reg ns) leaf q)) = JObj []"
    by (simp add: navigate_stored)
  with assms(1)
  have v: "lookup_value reg pr k q opts = (if wants_objects opts then Some (JObj []) else None)"
    by (simp add: lookup_value_def getDicValue_def)
  then have e: "empty_val (lookup_value reg pr k q opts)" by simp
  have "t reg pr cfg k q opts =
           (case fallbacks_of opts of
              f # rest \<Rightarrow> t reg pr cfg f q (with_fallback opts rest)
            | [] \<Rightarrow> if wants_objects opts then JObj [] else JStr k)"
  proof (cases "fallbacks_of opts")
    case Nil
    with v show ?thesis by (simp add: t_no_fallback finish_undefined finish_empty_object)
  next
    case (Cons f rest)
    with e show ?thesis by (simp add: t_fallback)
  qed
  with nav e show ?thesis by simp
qed

theorem empty_string_leaf_witness:
  "stored_at (dic_of sample_namespaces ''common'')
      (key_or_default (plural sample_rules (dic_of sample_namespaces ''common'') (Some ''blank'') None))
     = Some (JStr [])
   \<and> t sample_namespaces sample_rules default_config ''common:blank'' None None = JStr ''common:blank''
   \<and> t sample_namespaces sample_rules default_config ''common:blank'' None
        (Some \<lparr>returnObjects = True, fallback = NoFallback\<rparr>) = JObj []"
proof -
  have sk: "split_key ''common:blank'' = (''common'', Some ''blank'')"
    by (simp add: is_line_terminator_def)
  have st: "stored_at (dic_of sample_namespaces ''common'')
      (key_or_default (plural sample_rules (dic_of sample_namespaces ''common'') (Some ''blank'') None))
     = Some (JStr [])"
    by (simp add: stored_at_def dic_of_def sample_namespaces_def sample_dic_def plural_def
        key_or_default_def)
  have a: "t sample_namespaces sample_rules default_config ''common:blank'' None None = JStr ''common:blank''"
    using empty_string_leaf [OF sk st, of None default_config]
    by (simp add: wants_objects_def fallbacks_of_def)
  have b: "t sample_namespaces sample_rules default_config ''common:blank'' None
        (Some \<lparr>returnObjects = True, fallback = NoFallback\<rparr>) = JObj []"
    using empty_string_leaf [OF sk st, of "Some \<lparr>returnObjects = True, fallback = NoFallback\<rparr>" default_config]
    by (simp add: wants_objects_def fallbacks_of_def)
  from st a b show ?thesis by simp
qed

text \<open>
  The claim as it was stated promises the literal key whenever there is no fallback;
  with \<open>returnObjects\<close> set the resolver returns the empty mapping instead.
\<close>

theorem empty_string_leaf_counterexample:
  "stored_at sample_dic ''blank'' = Some (JStr [])
   \<and> fallbacks_of (Some \<lparr>returnObjects = True, fallback = NoFallback\<rparr>) = []
   \<and> t sample_namespaces sample_rules default_config ''common:blank'' None
        (Some \<lparr>returnObjects = True, fallback = NoFallback\<rparr>) \<noteq> JStr ''common:blank''"
  by code_simp

subsection \<open>The fallback chain\<close>

text \<open>
  Claim C1, as the code has it.  For a key that resolves empty and the fallback chain
  \<open>[k1, k2]\<close>, with no query: the result is that of resolving \<open>k1\<close> when \<open>k1\<close> resolves
  non-empty, and that of resolving \<open>k2\<close> otherwise.  When \<open>k2\<close> resolves empty too
  (and \<open>returnObjects\<close> is not set), the result is the literal string \<open>k2\<close>: the key of
  the last activation, not the key the caller asked for.
\<close>

theorem fallback_chain_of_two:
  assumes "empty_val (lookup_value reg pr missingKey None (Some \<lparr>returnObjects = ro, fallback = Fallbacks [k1, k2]\<rparr>))"
  shows "t reg pr cfg missingKey None (Some \<lparr>returnObjects = ro, fallback = Fallbacks [k1, k2]\<rparr>) =
           (if \<not> empty_val (lookup_value reg pr k1 None (Some \<lparr>returnObjects = ro, fallback = NoFallback\<rparr>))
            then t reg pr cfg k1 None (Some \<lparr>returnObjects = ro, fallback = NoFallback\<rparr>)
            else t reg pr cfg k2 None (Some \<lparr>returnObjects = ro, fallback = NoFallback\<rparr>))
       \<and> (\<not> ro \<and> empty_val (lookup_value reg pr k1 None (Some \<lparr>returnObjects = ro, fallback = NoFallback\<rparr>))
              \<and> empty_val (lookup_value reg pr k2 None (Some \<lparr>returnObjects = ro, fallback = NoFallback\<rparr>))
          \<longrightarrow> t reg pr cfg missingKey None (Some \<lparr>returnObjects = ro, fallback = Fallbacks [k1, k2]\<rparr>) = JStr k2)"
proof -
  let ?o2 = "Some \<lparr>returnObjects = ro, fallback = Fallbacks [k1, k2]\<rparr>"
  let ?o1 = "Some \<lparr>returnObjects = ro, fallback = Fallbacks [k2]\<rparr>"
  let ?o0 = "Some \<lparr>returnObjects = ro, fallback = Fallbacks []\<rparr>"
  let ?on = "Some \<lparr>returnObjects = ro, fallback = NoFallback\<rparr>"
  have lv: "lookup_value reg pr k None ?o1 = lookup_value reg pr k None ?on"
           "lookup_value reg pr k None ?o0 = lookup_value reg pr k None ?on" for k
    by (rule lookup_value_wants, simp add: wants_objects_def)+
  have step1: "t reg pr cfg missingKey None ?o2 = t reg pr cfg k1 None ?o1"
    using assms by (simp add: t_fallback [where f = k1 and rest = "[k2]"] fallbacks_of_def with_fallback_def)
  have last: "t reg pr cfg k None ?o0 = t reg pr cfg k None ?on" for k
    by (simp add: t_no_fallback fallbacks_of_def lv)
  have found: "\<not> empty_val (lookup_value reg pr k1 None ?on) \<Longrightarrow>
      t reg pr cfg k1 None ?o1 = t reg pr cfg k1 None ?on"
    by (simp add: t_found lv)
  have missed: "empty_val (lookup_value reg pr k1 None ?on) \<Longrightarrow>
      t reg pr cfg k1 None ?o1 = t reg pr cfg k2 None ?on"
    using last [of k2]
    by (simp add: t_fallback [where f = k2 and rest = "[]"] fallbacks_of_def with_fallback_def lv)
  have exhausted: "\<not> ro \<Longrightarrow> empty_val (lookup_value reg pr k2 None ?on) \<Longrightarrow>
      t reg pr cfg k2 None ?on = JStr k2"
  proof -
    assume ro: "\<not> ro" and e: "empty_val (lookup_value reg pr k2 None ?on)"
    from ro e have "lookup_value reg pr k2 None ?on = None"
      by (intro empty_val_default) (simp_all add: wants_objects_def)
    then show ?thesis by (simp add: t_no_fallback fallbacks_of_def finish_undefined)
  qed
  from step1 found missed exhausted show ?thesis by auto
qed

theorem fallback_chain_of_two_witness:
  "empty_val (lookup_value sample_namespaces sample_rules ''common:missing'' None
      (Some \<lparr>returnObjects = False, fallback = Fallbacks [''common:k1'', ''common:greeting'']\<rparr>))
   \<and> t sample_namespaces sample_rules default_config ''common:missing'' None
        (Some \<lparr>returnObjects = False, fallback = Fallbacks [''common:k1'', ''common:greeting'']\<rparr>)
       = JStr ''Hello {{name}}''
   \<and> empty_val (lookup_value sample_namespaces sample_rules ''common:missing'' None
      (Some \<lparr>returnObjects = False, fallback = Fallbacks [''common:k1'', ''common:k2'']\<rparr>))
   \<and> t sample_namespaces sample_rules default_config ''common:missing'' None
        (Some \<lparr>returnObjects = False, fallback = Fallbacks [''common:k1'', ''common:k2'']\<rparr>)
       = JStr ''common:k2''"
proof -
  have e: "empty_val (lookup_value sample_namespaces sample_rules ''common:missing'' None
      (Some \<lparr>returnObjects = False, fallback = Fallbacks [''common:k1'', ''common:greeting'']\<rparr>))"
    by code_simp
  have e': "empty_val (lookup_value sample_namespaces sample_rules ''common:missing'' None
      (Some \<lparr>returnObjects = False, fallback = Fallbacks [''common:k1'', ''common:k2'']\<rparr>))"
    by code_simp
  have e1: "empty_val (lookup_value sample_namespaces sample_rules ''common:k1'' None
      (Some \<lparr>returnObjects = False, fallback = NoFallback\<rparr>))"
    by code_simp
  have e2: "empty_val (lookup_value sample_namespaces sample_rules ''common:k2'' None
      (Some \<lparr>returnObjects = False, fallback = NoFallback\<rparr>))"
    by code_simp
  have r2: "t sample_namespaces sample_rules default_config ''common:greeting'' None
      (Some \<lparr>returnObjects = False, fallback = NoFallback\<rparr>) = JStr ''Hello {{name}}''"
    by code_simp
  from fallback_chain_of_two [OF e, of default_config] e1 r2
  have found: "t sample_namespaces sample_rules default_config ''common:missing'' None
        (Some \<lparr>returnObjects = False, fallback = Fallbacks [''common:k1'', ''common:greeting'']\<rparr>)
       = JStr ''Hello {{name}}''"
    by simp
  from fallback_chain_of_two [OF e', of default_config, THEN conjunct2] e1 e2
  have exhausted: "t sample_namespaces sample_rules default_config ''common:missing'' None
        (Some \<lparr>returnObjects = False, fallback = Fallbacks [''common:k1'', ''common:k2'']\<rparr>)
       = JStr ''common:k2''"
    by simp
  from e e' found exhausted show ?thesis by blast
qed

text \<open>
  The claim as it was stated promises the original key when the chain is exhausted;
  the resolver returns the last key of the chain.
\<close>

theorem fallback_chain_of_two_counterexample:
  "empty_val (lookup_value sample_namespaces sample_rules ''common:missing'' None None)
   \<and> empty_val (lookup_value sample_namespaces sample_rules ''common:k1'' None None)
   \<and> empty_val (lookup_value sample_namespaces sample_rules ''common:k2'' None None)
   \<and> t sample_namespaces sample_rules default_config ''common:missing'' None
        (Some \<lparr>returnObjects = False, fallback = Fallbacks [''common:k1'', ''common:k2'']\<rparr>)
       = JStr ''common:k2''
   \<and> t sample_namespaces sample_rules default_config ''common:missing'' None
        (Some \<lparr>returnObjects = False, fallback = Fallbacks [''common:k1'', ''common:k2'']\<rparr>)
       \<noteq> JStr ''common:missing''"
  by code_simp

subsection \<open>Keys that are present\<close>

text \<open>
  Claim C2, as the code has it.  For every registry and every key whose namespace is
  registered and whose leaf key holds a string that is not empty, resolving the key
  with no query returns exactly that string, whatever the options.
\<close>

theorem present_string_resolves:
  assumes "split_key k = (ns, Some leaf)"
    and "reg ns = Some dic"
    and "stored_at dic leaf = Some (JStr v)"
    and "v \<noteq> []"
  shows "t reg pr cfg k None opts = JStr v"
proof -
  from assms(2,3) have dic: "dic_of reg ns = dic" by (rule dic_of_stored)
  from assms(3,4) have "navigate dic leaf = JStr v" by (simp add: navigate_stored)
  with assms(1) dic have v: "lookup_value reg pr k None opts = Some (JStr v)"
    by (simp add: lookup_value_def plural_def getDicValue_def key_or_default_def)
  then have "t reg pr cfg k None opts = finish cfg k None (Some (JStr v))"
    by (simp add: t_found)
  with assms(4) show ?thesis by (simp add: finish_string_no_query)
qed

theorem present_string_resolves_witness:
  "split_key ''common:menu.title'' = (''common'', Some ''menu.title'')
   \<and> sample_namespaces ''common'' = Some sample_dic
   \<and> stored_at sample_dic ''menu.title'' = Some (JStr ''Menu'')
   \<and> t sample_namespaces sample_rules default_config ''common:menu.title'' None None = JStr ''Menu''"
proof -
  have sk: "split_key ''common:menu.title'' = (''common'', Some ''menu.title'')"
    by (simp add: is_line_terminator_def)
  have ns: "sample_namespaces ''common'' = Some sample_dic"
    by (simp add: sample_namespaces_def)
  have st: "stored_at sample_dic ''menu.title'' = Some (JStr ''Menu'')"
    by (simp add: stored_at_def sample_dic_def)
  from present_string_resolves [where reg = sample_namespaces and pr = sample_rules
      and cfg = default_config and opts = None, OF sk ns st] sk ns st
  show ?thesis by simp
qed

text \<open>
  The claim as it was stated includes the empty string; for a key that holds the
  empty string the resolver returns the key.
\<close>

theorem present_empty_string_counterexample:
  "split_key ''common:blank'' = (''common'', Some ''blank'')
   \<and> sample_namespaces ''common'' = Some sample_dic
   \<and> stored_at sample_dic ''blank'' = Some (JStr [])
   \<and> t sample_namespaces sample_rules default_config ''common:blank'' None None = JStr ''common:blank''
   \<and> t sample_namespaces sample_rules default_config ''common:blank'' None None \<noteq> JStr []"
  by code_simp

subsection \<open>The plural selector\<close>

lemma interpolation_count_not_Nil:
  "s \<noteq> [] \<Longrightarrow> interpolation cfg (Some s) (Some [(''count'', JNum c)]) \<noteq> []"
  by (simp add: interpolation_def replace_all_def replace_from_not_Nil num_str_no_dollar
      num_str_not_Nil)

lemma interpolation_count_untouched:
  "fst (delims cfg) \<noteq> [] \<Longrightarrow> hd (fst (delims cfg)) \<notin> set s \<Longrightarrow>
   interpolation cfg (Some s) (Some [(''count'', JNum c)]) = s"
  by (simp add: interpolation_def replace_all_untouched)

lemma step_into_truthy: "truthy (step_into seg val)"
  by (simp add: step_into_def split: option.splits)

lemma fold_step_into_truthy: "segs \<noteq> [] \<Longrightarrow> truthy (fold step_into segs d)"
proof (induction segs arbitrary: d)
  case Nil
  then show ?case by simp
next
  case (Cons seg segs)
  then show ?case by (cases segs) (simp_all add: step_into_truthy)
qed

lemma navigate_truthy: "truthy (navigate dic key)"
  by (simp add: navigate_def fold_step_into_truthy split_on_not_Nil)

text \<open>What a probe with the default options finds is a string that is not empty, and
  the lookup finds the same under any options.\<close>

lemma getDicValue_default_found:
  assumes "getDicValue dic key None = Some v"
  shows "\<exists>s. v = JStr s \<and> s \<noteq> [] \<and> (\<forall>opts. getDicValue dic key opts = Some (JStr s))"
proof -
  from assms have v: "navigate dic (key_or_default key) = v" and str: "is_string v"
    by (auto simp: getDicValue_def Let_def wants_objects_def split: if_splits)
  from str obtain s where s: "v = JStr s" by (cases v) auto
  with v navigate_truthy [of dic "key_or_default key"] have "s \<noteq> []" by simp
  moreover from v s have "getDicValue dic key opts = Some (JStr s)" for opts
    by (simp add: getDicValue_def)
  ultimately show ?thesis using s by blast
qed

lemma finish_count_string:
  "s \<noteq> [] \<Longrightarrow>
   finish cfg k (Some [(''count'', JNum c)]) (Some (JStr s)) =
     JStr (interpolation cfg (Some s) (Some [(''count'', JNum c)]))"
  by (simp add: finish_def interpolation_count_not_Nil)

lemma plural_exact:
  "map_of q ''count'' = Some (JNum c) \<Longrightarrow>
   getDicValue dic (Some (key_str key @ ''_'' @ num_str c)) None \<noteq> None \<Longrightarrow>
   plural pr dic key (Some q) = Some (key_str key @ ''_'' @ num_str c)"
  by (simp add: plural_def)

lemma plural_category:
  "map_of q ''count'' = Some (JNum c) \<Longrightarrow>
   getDicValue dic (Some (key_str key @ ''_'' @ num_str c)) None = None \<Longrightarrow>
   1 < c \<Longrightarrow> getDicValue dic (Some (key_str key @ ''_'' @ pr c)) None \<noteq> None \<Longrightarrow>
   plural pr dic key (Some q) = Some (key_str key @ ''_'' @ pr c)"
  by (simp add: plural_def)

lemma plural_base:
  "map_of q ''count'' = Some (JNum c) \<Longrightarrow>
   getDicValue dic (Some (key_str key @ ''_'' @ num_str c)) None = None \<Longrightarrow>
   c \<le> 1 \<or> getDicValue dic (Some (key_str key @ ''_'' @ pr c)) None = None \<Longrightarrow>
   plural pr dic key (Some q) = key"
  by (auto simp: plural_def)

lemma lookup_value_via_plural:
  "split_key k = (ns, leaf) \<Longrightarrow>
   lookup_value reg pr k q opts =
     getDicValue (dic_of reg ns) (plural pr (dic_of reg ns) leaf q) opts"
  by (simp add: lookup_value_def Let_def)

lemma sample_dic_of: "dic_of sample_namespaces ''common'' = sample_dic"
  by (simp add: dic_of_def sample_namespaces_def sample_dic_def)

lemma sample_delims: "delims default_config = (''{{'', ''}}'')"
  by (simp add: delims_def default_config_def)


text \<open>What the probes of the plural selector find, and what follows from it.\<close>

lemma exact_probe_found:
  assumes "split_key k = (ns, Some base)"
    and "getDicValue (dic_of reg ns) (Some (base @ ''_'' @ num_str c)) None = Some v"
  shows "plural pr (dic_of reg ns) (Some base) (Some [(''count'', JNum c)])
           = Some (base @ ''_'' @ num_str c)
       \<and> lookup_value reg pr k (Some [(''count'', JNum c)]) opts = Some v
       \<and> t reg pr cfg k (Some [(''count'', JNum c)]) opts
           = JStr (interpolation cfg (Some (to_string v)) (Some [(''count'', JNum c)]))
       \<and> (fst (delims cfg) \<noteq> [] \<and> hd (fst (delims cfg)) \<notin> set (to_string v)
            \<longrightarrow> t reg pr cfg k (Some [(''count'', JNum c)]) opts = v)"
proof -
  let ?q = "Some [(''count'', JNum c)]"
  let ?dic = "dic_of reg ns"
  from assms(2) obtain s where s: "v = JStr s" "s \<noteq> []"
    and any: "\<forall>opts. getDicValue ?dic (Some (base @ ''_'' @ num_str c)) opts = Some (JStr s)"
    using getDicValue_default_found by blast
  have p: "plural pr ?dic (Some base) ?q = Some (base @ ''_'' @ num_str c)"
    using assms(2) by (simp add: plural_exact)
  with assms(1) any s have v: "lookup_value reg pr k ?q opts = Some v"
    by (simp add: lookup_value_via_plural)
  with s have r: "t reg pr cfg k ?q opts = JStr (interpolation cfg (Some s) ?q)"
    by (simp add: t_found finish_count_string)
  with s have "fst (delims cfg) \<noteq> [] \<and> hd (fst (delims cfg)) \<notin> set (to_string v)
            \<longrightarrow> t reg pr cfg k ?q opts = v"
    by (simp add: interpolation_count_untouched)
  with p v r s show ?thesis by simp
qed

lemma category_probe_found:
  assumes "split_key k = (ns, Some base)"
    and "getDicValue (dic_of reg ns) (Some (base @ ''_'' @ num_str c)) None = None"
  shows "(1 < c \<and> getDicValue (dic_of reg ns) (Some (base @ ''_'' @ pr c)) None = Some v
           \<longrightarrow> plural pr (dic_of reg ns) (Some base) (Some [(''count'', JNum c)])
                 = Some (base @ ''_'' @ pr c)
             \<and> t reg pr cfg k (Some [(''count'', JNum c)]) opts
                 = JStr (interpolation cfg (Some (to_string v)) (Some [(''count'', JNum c)])))
       \<and> (c \<le> 1
           \<longrightarrow> plural pr (dic_of reg ns) (Some base) (Some [(''count'', JNum c)]) = Some base
             \<and> lookup_value reg pr k (Some [(''count'', JNum c)]) opts
                 = getDicValue (dic_of reg ns) (Some base) opts)"
proof -
  let ?q = "Some [(''count'', JNum c)]"
  let ?dic = "dic_of reg ns"
  have above: "plural pr ?dic (Some base) ?q = Some (base @ ''_'' @ pr c)
             \<and> t reg pr cfg k ?q opts = JStr (interpolation cfg (Some (to_string v)) ?q)"
    if c: "1 < c" and found: "getDicValue ?dic (Some (base @ ''_'' @ pr c)) None = Some v"
  proof -
    from found obtain s where s: "v = JStr s" "s \<noteq> []"
      and any: "\<forall>opts. getDicValue ?dic (Some (base @ ''_'' @ pr c)) opts = Some (JStr s)"
      using getDicValue_default_found by blast
    have p: "plural pr ?dic (Some base) ?q = Some (base @ ''_'' @ pr c)"
      using assms(2) c found by (simp add: plural_category)
    with assms(1) any s have "lookup_value reg pr k ?q opts = Some (JStr s)"
      by (simp add: lookup_value_via_plural)
    with s have "t reg pr cfg k ?q opts = JStr (interpolation cfg (Some s) ?q)"
      by (simp add: t_found finish_count_string)
    with p s show ?thesis by simp
  qed
  have below: "plural pr ?dic (Some base) ?q = Some base
             \<and> lookup_value reg pr k ?q opts = getDicValue ?dic (Some base) opts"
    if c: "c \<le> 1"
  proof -
    have "plural pr ?dic (Some base) ?q = Some base"
      using assms(2) c by (simp add: plural_base)
    with assms(1) show ?thesis by (simp add: lookup_value_via_plural)
  qed
  from above below show ?thesis by blast
qed

text \<open>
  A key that ends in \<open>_count\<close> and is not stored in the dictionary is not found by the
  lookup either: its last segment is no index into a string.
\<close>

lemma split_on_no_sep: "c \<notin> set b \<Longrightarrow> split_on c b = [b]"
  by (induction b) auto

lemma split_on_append:
  "c \<notin> set b \<Longrightarrow>
   split_on c (a @ b) = butlast (split_on c a) @ [last (split_on c a) @ b]"
proof (induction a)
  case Nil
  then show ?case by (simp add: split_on_no_sep)
next
  case (Cons x a)
  then show ?case
    using split_on_not_Nil [of c a]
    by (cases "split_on c a") (auto split: list.splits)
qed

lemma num_str_chars: "set (num_str i) \<subseteq> insert CHR ''-'' (set ''0123456789'')"
proof (cases "i < 0")
  case True
  then have "set (num_str i) = insert CHR ''-'' (set (nat_str (nat (- i))))"
    by (simp add: num_str_def)
  with nat_str_digits [of "nat (- i)"] show ?thesis by blast
next
  case False
  then have "set (num_str i) = set (nat_str (nat i))"
    by (simp add: num_str_def)
  with nat_str_digits [of "nat i"] show ?thesis by blast
qed

lemma last_segment_count_key:
  "CHR ''_'' \<in> set (last (split_on CHR ''.'' (base @ ''_'' @ num_str c)))"
proof -
  have "CHR ''.'' \<notin> insert CHR ''-'' (set ''0123456789'')" by simp
  with num_str_chars [of c] have "CHR ''.'' \<notin> set (num_str c)" by blast
  then have "CHR ''.'' \<notin> set (''_'' @ num_str c)" by simp
  from split_on_append [OF this, of base] show ?thesis by simp
qed

lemma count_key_no_index:
  "nat_str i \<noteq> last (split_on CHR ''.'' (base @ ''_'' @ num_str c))"
proof
  assume "nat_str i = last (split_on CHR ''.'' (base @ ''_'' @ num_str c))"
  with last_segment_count_key [of base c] have "CHR ''_'' \<in> set (nat_str i)" by simp
  with nat_str_digits [of i] have "CHR ''_'' \<in> set ''0123456789''" by blast
  then show False by simp
qed

text \<open>Off the path of own properties: a primitive value or the empty mapping.\<close>

lemma step_into_off_path:
  "\<forall>kvs. v = JObj kvs \<longrightarrow> kvs = [] \<Longrightarrow>
   \<forall>kvs. step_into seg v = JObj kvs \<longrightarrow> kvs = []"
  by (cases v) (auto simp: step_into_def split: option.splits if_splits)

lemma step_into_off_path_no_string:
  "\<forall>kvs. v = JObj kvs \<longrightarrow> kvs = [] \<Longrightarrow> \<forall>i. nat_str i \<noteq> seg \<Longrightarrow>
   \<not> is_string (step_into seg v)"
  by (cases v) (auto simp: step_into_def find_Some_iff split: option.splits if_splits)

lemma fold_off_path_no_string:
  "\<forall>kvs. v = JObj kvs \<longrightarrow> kvs = [] \<Longrightarrow> segs \<noteq> [] \<Longrightarrow> \<forall>i. nat_str i \<noteq> last segs \<Longrightarrow>
   \<not> is_string (fold step_into segs v)"
proof (induction segs arbitrary: v)
  case Nil
  then show ?case by simp
next
  case (Cons seg segs)
  show ?case
  proof (cases segs)
    case Nil
    with Cons.prems show ?thesis by (simp add: step_into_off_path_no_string)
  next
    case (Cons s ss)
    with Cons.prems Cons.IH [OF step_into_off_path [OF Cons.prems(1), of seg]]
    show ?thesis by simp
  qed
qed

lemma fold_absent_no_string:
  "value_at d segs = None \<Longrightarrow> \<forall>i. nat_str i \<noteq> last segs \<Longrightarrow>
   \<not> is_string (fold step_into segs d)"
proof (induction d segs rule: value_at.induct)
  case (1 v)
  then show ?case by simp
next
  case (2 kvs seg segs)
  show ?case
  proof (cases "map_of kvs seg")
    case None
    then have "step_into seg (JObj kvs) = JObj []" by (simp add: step_into_def)
    then show ?thesis by (simp add: fold_step_into_empty)
  next
    case (Some w)
    with "2.prems"(1) have absent: "value_at w segs = None" by simp
    then have ne: "segs \<noteq> []" by (cases segs) auto
    show ?thesis
    proof (cases "truthy w")
      case True
      with Some have "step_into seg (JObj kvs) = w" by (simp add: step_into_def)
      with "2.IH" [OF Some absent] "2.prems"(2) ne show ?thesis by simp
    next
      case False
      with Some have "step_into seg (JObj kvs) = JObj []" by (simp add: step_into_def)
      then show ?thesis by (simp add: fold_step_into_empty)
    qed
  qed
qed (rule fold_off_path_no_string; simp)+

lemma getDicValue_absent_count_key:
  "stored_at dic (base @ ''_'' @ num_str c) = None \<Longrightarrow>
   getDicValue dic (Some (base @ ''_'' @ num_str c)) None = None"
proof -
  assume "stored_at dic (base @ ''_'' @ num_str c) = None"
  then have "value_at dic (split_on CHR ''.'' (base @ ''_'' @ num_str c)) = None"
    by (simp only: stored_at_def)
  moreover have "\<forall>i. nat_str i \<noteq> last (split_on CHR ''.'' (base @ ''_'' @ num_str c))"
    by (intro allI count_key_no_index)
  ultimately have "\<not> is_string (navigate dic (base @ ''_'' @ num_str c))"
    unfolding navigate_def by (rule fold_absent_no_string)
  then show ?thesis
    by (simp only: getDicValue_def key_or_default_def wants_objects_def Let_def option.case
        simp_thms if_False)
qed

lemma getDicValue_stored_string:
  "stored_at dic key = Some (JStr s) \<Longrightarrow> s \<noteq> [] \<Longrightarrow>
   getDicValue dic (Some key) opts = Some (JStr s)"
  by (simp add: getDicValue_def navigate_stored key_or_default_def)

text \<open>
  Claim C3, as the code has it.  For every integer count \<open>c\<close> and every dictionary in
  which the exact-count key \<open>base_c\<close> holds a string that is not empty, the plural
  selector returns that key, whatever the plural rules say and whatever category keys
  exist, and resolving \<open>ns:base\<close> with the query \<open>{count: c}\<close> returns the string stored
  at \<open>base_c\<close>: with the count interpolated into it, hence the stored string itself when
  the placeholder prefix does not occur in it.
\<close>

theorem exact_count_string_first:
  assumes "split_key k = (ns, Some base)"
    and "stored_at (dic_of reg ns) (base @ ''_'' @ num_str c) = Some (JStr s)"
    and "s \<noteq> []"
  shows "plural pr (dic_of reg ns) (Some base) (Some [(''count'', JNum c)])
           = Some (base @ ''_'' @ num_str c)
       \<and> lookup_value reg pr k (Some [(''count'', JNum c)]) opts = Some (JStr s)
       \<and> t reg pr cfg k (Some [(''count'', JNum c)]) opts
           = JStr (interpolation cfg (Some s) (Some [(''count'', JNum c)]))
       \<and> (fst (delims cfg) \<noteq> [] \<and> hd (fst (delims cfg)) \<notin> set s
            \<longrightarrow> t reg pr cfg k (Some [(''count'', JNum c)]) opts = JStr s)"
proof -
  from assms(2,3)
  have "getDicValue (dic_of reg ns) (Some (base @ ''_'' @ num_str c)) None = Some (JStr s)"
    by (rule getDicValue_stored_string)
  from exact_probe_found [OF assms(1) this, of pr opts cfg] show ?thesis
    by (simp add: interpolation_count_untouched)
qed

theorem exact_count_string_first_witness:
  "split_key ''common:plums'' = (''common'', Some ''plums'')
   \<and> stored_at (dic_of sample_namespaces ''common'') (''plums'' @ ''_'' @ num_str 3)
       = Some (JStr ''three plums'')
   \<and> stored_at (dic_of sample_namespaces ''common'') (''plums'' @ ''_'' @ sample_rules 3)
       = Some (JStr ''{{count}} plums'')
   \<and> plural sample_rules (dic_of sample_namespaces ''common'') (Some ''plums'')
        (Some [(''count'', JNum 3)]) = Some ''plums_3''
   \<and> t sample_namespaces sample_rules default_config ''common:plums''
        (Some [(''count'', JNum 3)]) None = JStr ''three plums''"
proof -
  have sk: "split_key ''common:plums'' = (''common'', Some ''plums'')"
    by (simp add: is_line_terminator_def)
  have ex: "stored_at (dic_of sample_namespaces ''common'') (''plums'' @ ''_'' @ num_str 3)
       = Some (JStr ''three plums'')"
    by code_simp
  have cat: "stored_at (dic_of sample_namespaces ''common'') (''plums'' @ ''_'' @ sample_rules 3)
       = Some (JStr ''{{count}} plums'')"
    by code_simp
  have ne: "''three plums'' \<noteq> []" by simp
  have k: "''plums'' @ ''_'' @ num_str 3 = ''plums_3''"
    by code_simp
  have i3: "interpolation default_config (Some ''three plums'') (Some [(''count'', JNum 3)])
      = ''three plums''"
    by code_simp
  from exact_count_string_first [where pr = sample_rules and cfg = default_config and opts = None,
      OF sk ex ne] k i3
  have "plural sample_rules (dic_of sample_namespaces ''common'') (Some ''plums'')
        (Some [(''count'', JNum 3)]) = Some ''plums_3''
     \<and> t sample_namespaces sample_rules default_config ''common:plums''
        (Some [(''count'', JNum 3)]) None = JStr ''three plums''"
    by simp
  with sk ex cat show ?thesis by blast
qed

text \<open>
  The claim as it was stated holds for every value at the exact-count key.  An empty
  string there is not found by the probe, and neither is an object, even for a caller
  who passed \<open>returnObjects\<close>: resolution goes on to the category key.
\<close>

theorem exact_count_string_first_counterexample:
  "stored_at sample_dic (''kiwis'' @ ''_'' @ num_str 3) = Some (JStr [])
   \<and> t sample_namespaces sample_rules default_config ''common:kiwis''
        (Some [(''count'', JNum 3)]) None = JStr ''many kiwis''
   \<and> t sample_namespaces sample_rules default_config ''common:kiwis''
        (Some [(''count'', JNum 3)]) None \<noteq> JStr []
   \<and> stored_at sample_dic (''pears'' @ ''_'' @ num_str 5)
       = Some (JObj [(''label'', JStr ''five pears'')])
   \<and> t sample_namespaces sample_rules default_config ''common:pears''
        (Some [(''count'', JNum 5)]) (Some \<lparr>returnObjects = True, fallback = NoFallback\<rparr>)
       = JStr ''5 pears''"
  by code_simp

text \<open>
  Claim C4, as the code has it.  With no exact-count key in the dictionary: for an
  integer count above one and a category key \<open>base_category\<close> that holds a string that
  is not empty, the selector returns the category key and resolution returns the
  string stored there, with the count interpolated; for a count of one or less the
  selector returns the base key, which is then looked up, whether or not a category
  key exists.
\<close>

theorem category_string_above_one:
  assumes "split_key k = (ns, Some base)"
    and "stored_at (dic_of reg ns) (base @ ''_'' @ num_str c) = None"
  shows "(1 < c \<and> stored_at (dic_of reg ns) (base @ ''_'' @ pr c) = Some (JStr s) \<and> s \<noteq> []
           \<longrightarrow> plural pr (dic_of reg ns) (Some base) (Some [(''count'', JNum c)])
                 = Some (base @ ''_'' @ pr c)
             \<and> t reg pr cfg k (Some [(''count'', JNum c)]) opts
                 = JStr (interpolation cfg (Some s) (Some [(''count'', JNum c)])))
       \<and> (c \<le> 1
           \<longrightarrow> plural pr (dic_of reg ns) (Some base) (Some [(''count'', JNum c)]) = Some base
             \<and> lookup_value reg pr k (Some [(''count'', JNum c)]) opts
                 = getDicValue (dic_of reg ns) (Some base) opts)"
proof -
  from assms(2)
  have absent: "getDicValue (dic_of reg ns) (Some (base @ ''_'' @ num_str c)) None = None"
    by (rule getDicValue_absent_count_key)
  note probe = category_probe_found [OF assms(1) absent, of pr "JStr s" cfg opts]
  have "getDicValue (dic_of reg ns) (Some (base @ ''_'' @ pr c)) None = Some (JStr s)"
    if "stored_at (dic_of reg ns) (base @ ''_'' @ pr c) = Some (JStr s)" and "s \<noteq> []"
    using that by (rule getDicValue_stored_string)
  with probe show ?thesis by auto
qed

theorem category_string_above_one_witness:
  "stored_at (dic_of sample_namespaces ''common'') (''apples'' @ ''_'' @ num_str 5) = None
   \<and> stored_at (dic_of sample_namespaces ''common'') (''apples'' @ ''_'' @ sample_rules 5)
       = Some (JStr ''{{count}} apples'')
   \<and> t sample_namespaces sample_rules default_config ''common:apples''
        (Some [(''count'', JNum 5)]) None = JStr ''5 apples''
   \<and> stored_at (dic_of sample_namespaces ''common'') (''plums'' @ ''_'' @ num_str 1) = None
   \<and> stored_at (dic_of sample_namespaces ''common'') (''plums'' @ ''_'' @ sample_rules 1)
       = Some (JStr ''a plum'')
   \<and> plural sample_rules (dic_of sample_namespaces ''common'') (Some ''plums'')
        (Some [(''count'', JNum 1)]) = Some ''plums''"
proof -
  have sk5: "split_key ''common:apples'' = (''common'', Some ''apples'')"
    by (simp add: is_line_terminator_def)
  have no5: "stored_at (dic_of sample_namespaces ''common'') (''apples'' @ ''_'' @ num_str 5) = None"
    by code_simp
  have cat5: "stored_at (dic_of sample_namespaces ''common'') (''apples'' @ ''_'' @ sample_rules 5)
       = Some (JStr ''{{count}} apples'')"
    by code_simp
  have ne5: "''{{count}} apples'' \<noteq> []" by simp
  have i5: "interpolation default_config (Some ''{{count}} apples'') (Some [(''count'', JNum 5)]) = ''5 apples''"
    by code_simp
  have sk1: "split_key ''common:plums'' = (''common'', Some ''plums'')"
    by (simp add: is_line_terminator_def)
  have no1: "stored_at (dic_of sample_namespaces ''common'') (''plums'' @ ''_'' @ num_str 1) = None"
    by code_simp
  have cat1: "stored_at (dic_of sample_namespaces ''common'') (''plums'' @ ''_'' @ sample_rules 1)
       = Some (JStr ''a plum'')"
    by code_simp
  from category_string_above_one [where pr = sample_rules and cfg = default_config and opts = None
      and s = "''{{count}} apples''", OF sk5 no5] cat5 ne5 i5
  have a: "t sample_namespaces sample_rules default_config ''common:apples''
        (Some [(''count'', JNum 5)]) None = JStr ''5 apples''"
    by simp
  from category_string_above_one [where pr = sample_rules and cfg = default_config and opts = None
      and s = "''a plum''", OF sk1 no1]
  have b: "plural sample_rules (dic_of sample_namespaces ''common'') (Some ''plums'')
        (Some [(''count'', JNum 1)]) = Some ''plums''"
    by simp
  from a b no5 cat5 no1 cat1 show ?thesis by blast
qed

text \<open>
  The claim as it was stated holds for every category key that exists.  A category key
  that holds the empty string is not found by the probe, and neither is one that holds
  an object, even for a caller who passed \<open>returnObjects\<close>: the base key is looked up.
\<close>

theorem category_string_above_one_counterexample:
  "stored_at sample_dic (''limes'' @ ''_'' @ num_str 2) = None
   \<and> stored_at sample_dic (''limes'' @ ''_'' @ sample_rules 2) = Some (JStr [])
   \<and> t sample_namespaces sample_rules default_config ''common:limes''
        (Some [(''count'', JNum 2)]) None = JStr ''limes''
   \<and> t sample_namespaces sample_rules default_config ''common:limes''
        (Some [(''count'', JNum 2)]) None \<noteq> JStr []
   \<and> stored_at sample_dic (''dates'' @ ''_'' @ num_str 5) = None
   \<and> stored_at sample_dic (''dates'' @ ''_'' @ sample_rules 5)
       = Some (JObj [(''label'', JStr ''dates'')])
   \<and> t sample_namespaces sample_rules default_config ''common:dates''
        (Some [(''count'', JNum 5)]) (Some \<lparr>returnObjects = True, fallback = NoFallback\<rparr>)
       = JStr ''some dates''"
  by code_simp




subsection \<open>Interpolation\<close>



subsection \<open>Placeholders of a template\<close>

lemma brace_not_space: "\<not> is_space CHR ''{''" "\<not> is_space CHR ''}''"
  by (simp_all add: is_space_def)

lemma brace_regex_syntax: "CHR ''{'' \<in> regex_syntax" "CHR ''}'' \<in> regex_syntax"
  by (simp_all add: regex_syntax_def)

lemma plain_nameD:
  assumes "plain_name n"
  shows "n \<noteq> []" and "\<forall>c \<in> set n. \<not> is_space c"
    and "CHR ''{'' \<notin> set n" and "CHR ''}'' \<notin> set n"
  using assms brace_regex_syntax by (auto simp: plain_name_def regex_free_def list_all_iff)

lemma blankD: "blank w \<Longrightarrow> \<forall>c \<in> set w. is_space c"
  by (simp add: blank_def list_all_iff)

lemma blank_no_brace: "blank w \<Longrightarrow> CHR ''{'' \<notin> set w"
  using brace_not_space by (auto dest: blankD)

lemma lit_Some_hd: "lit d z = Some r \<Longrightarrow> d \<noteq> [] \<Longrightarrow> z \<noteq> [] \<and> hd z = hd d"
  by (cases d; cases z) (auto split: if_splits)

lemma lit_append_cases:
  "lit x (n @ z) = Some r \<Longrightarrow>
   (\<exists>d. n = x @ d \<and> r = d @ z) \<or> (\<exists>d. d \<noteq> [] \<and> x = n @ d \<and> lit d z = Some r)"
proof (induction x arbitrary: n)
  case Nil
  then show ?case by simp
next
  case (Cons a x)
  show ?case
  proof (cases n)
    case Nil
    with Cons.prems show ?thesis by simp
  next
    case (Cons b m)
    with Cons.prems have "a = b" and "lit x (m @ z) = Some r"
      by (auto split: if_splits)
    with Cons.IH [of m] Cons show ?thesis by auto
  qed
qed

text \<open>After the white space of a placeholder: its name, when it is not the key.\<close>

lemma key_then_suffix_other_name:
  assumes x: "plain_name x" and n: "plain_name n" and ne: "n \<noteq> x" and w2: "blank w2"
  shows "key_then_suffix x ''}}'' (n @ w2 @ ''}}'' @ rest) = None"
proof (cases "lit x (n @ w2 @ ''}}'' @ rest)")
  case None
  then show ?thesis by (simp add: key_then_suffix_def)
next
  case (Some r)
  from lit_append_cases [OF Some]
  consider d where "n = x @ d" "r = d @ w2 @ ''}}'' @ rest"
    | d where "d \<noteq> []" "x = n @ d" "lit d (w2 @ ''}}'' @ rest) = Some r"
    by blast
  then show ?thesis
  proof cases
    case 1
    with ne have d: "d \<noteq> []" by auto
    with 1 have "hd d \<in> set n" by (cases d) auto
    with plain_nameD [OF n] have "\<not> is_space (hd d)" "hd d \<noteq> CHR ''}''" by auto
    with d have "ws_star (lit ''}}'') (d @ w2 @ ''}}'' @ rest) = None"
      by (subst ws_star_no_space) (auto intro!: lit_head_differs)
    with Some 1 show ?thesis by (simp add: key_then_suffix_def)
  next
    case 2
    from 2(1,2) have "hd d \<in> set x" by (cases d) auto
    with plain_nameD [OF x] have d: "\<not> is_space (hd d)" "hd d \<noteq> CHR ''}''" by auto
    from lit_Some_hd [OF 2(3) 2(1)] have "hd (w2 @ ''}}'' @ rest) = hd d" by simp
    moreover have "is_space (hd (w2 @ ''}}'' @ rest)) \<or> hd (w2 @ ''}}'' @ rest) = CHR ''}''"
      using blankD [OF w2] by (cases w2) auto
    ultimately show ?thesis using d by auto
  qed
qed

lemma key_then_suffix_at_space:
  "plain_name x \<Longrightarrow> s \<noteq> [] \<Longrightarrow> is_space (hd s) \<Longrightarrow> key_then_suffix x sfx s = None"
  using plain_nameD(1,2) [of x]
  by (cases x; cases s) (auto simp: key_then_suffix_def)

lemma hole_no_match:
  assumes x: "plain_name x" and n: "plain_name n" and ne: "n \<noteq> x"
    and w1: "blank w1" and w2: "blank w2"
  shows "match_here ''{{'' x ''}}'' (''{{'' @ w1 @ n @ w2 @ ''}}'' @ rest) = None"
proof -
  have "ws_star (key_then_suffix x ''}}'') (w1 @ (n @ w2 @ ''}}'' @ rest)) = None"
  proof (rule ws_star_none, intro allI impI)
    fix i assume i: "i \<le> length w1"
    show "key_then_suffix x ''}}'' (drop i w1 @ n @ w2 @ ''}}'' @ rest) = None"
    proof (cases "i = length w1")
      case True
      with key_then_suffix_other_name [OF x n ne w2] show ?thesis by simp
    next
      case False
      with i have d: "drop i w1 \<noteq> []" by simp
      then have "hd (drop i w1) \<in> set w1" by (metis hd_in_set in_set_dropD)
      with blankD [OF w1] d show ?thesis
        by (intro key_then_suffix_at_space [OF x]) auto
    qed
  next
    from plain_nameD [OF n] show "n @ w2 @ ''}}'' @ rest = [] \<or> \<not> is_space (hd (n @ w2 @ ''}}'' @ rest))"
      by (cases n) auto
  qed
  then show ?thesis by (simp add: match_here_def)
qed

lemma hole_match:
  assumes x: "plain_name x" and w1: "blank w1" and w2: "blank w2"
  shows "match_here ''{{'' x ''}}'' (''{{'' @ w1 @ x @ w2 @ ''}}'' @ rest) = Some rest"
proof -
  have "ws_star (lit ''}}'') (w2 @ (''}}'' @ rest)) = Some rest"
    using blankD [OF w2] brace_not_space by (intro ws_star_skip) auto
  then have "key_then_suffix x ''}}'' (x @ w2 @ ''}}'' @ rest) = Some rest"
    by (simp add: key_then_suffix_def lit_append)
  then have "ws_star (key_then_suffix x ''}}'') (w1 @ (x @ w2 @ ''}}'' @ rest)) = Some rest"
    using blankD [OF w1] plain_nameD [OF x] by (intro ws_star_skip) (auto simp: neq_Nil_conv)
  then show ?thesis by (simp add: match_here_def)
qed


lemma second_brace_no_match:
  "u \<noteq> [] \<Longrightarrow> hd u \<noteq> CHR ''{'' \<Longrightarrow> match_here ''{{'' x sfx (CHR ''{'' # u @ rest) = None"
  by (cases u) (simp_all add: match_here_def)

lemma render_Nil: "render [] = []"
  by (simp add: render_def)

lemma render_Cons: "render (p # ps) = render_piece p @ render ps"
  by (simp add: render_def)

lemma hole_inside_no_brace:
  "blank w1 \<Longrightarrow> plain_name n \<Longrightarrow> blank w2 \<Longrightarrow> CHR ''{'' \<notin> set (w1 @ n @ w2 @ ''}}'')"
  using blank_no_brace plain_nameD(3) by auto

lemma hole_inside_hd:
  "blank w1 \<Longrightarrow> plain_name n \<Longrightarrow> blank w2 \<Longrightarrow>
   w1 @ n @ w2 @ ''}}'' \<noteq> [] \<and> hd (w1 @ n @ w2 @ ''}}'') \<noteq> CHR ''{''"
  using hole_inside_no_brace [of w1 n w2] by (cases "w1 @ n @ w2 @ ''}}''") auto

lemma replace_from_skip:
  assumes "match_here ''{{'' x ''}}'' (''{{'' @ u @ rest) = None"
    and "u \<noteq> []" and "CHR ''{'' \<notin> set u"
  shows "replace_from ''{{'' x ''}}'' v pre (''{{'' @ u @ rest)
         = ''{{'' @ u @ replace_from ''{{'' x ''}}'' v (pre @ ''{{'' @ u) rest"
proof -
  from assms(1) have first: "match_here ''{{'' x ''}}'' (CHR ''{'' # CHR ''{'' # u @ rest) = None"
    by simp
  from assms(2,3) have second: "match_here ''{{'' x ''}}'' (CHR ''{'' # u @ rest) = None"
    by (intro second_brace_no_match) (auto simp: neq_Nil_conv)
  from assms(3)
  have inside: "replace_from ''{{'' x ''}}'' v ((pre @ [CHR ''{'']) @ [CHR ''{'']) (u @ rest)
                = u @ replace_from ''{{'' x ''}}'' v (((pre @ [CHR ''{'']) @ [CHR ''{'']) @ u) rest"
    by (intro replace_from_untouched) simp_all
  show ?thesis
    using inside
    by (simp add: replace_from_no_match [OF first] replace_from_no_match [OF second])
qed

lemma replace_from_other_hole:
  assumes x: "plain_name x" and n: "plain_name n" and ne: "n \<noteq> x"
    and w1: "blank w1" and w2: "blank w2"
  shows "replace_from ''{{'' x ''}}'' v pre (render_piece (Hole w1 n w2) @ rest)
         = render_piece (Hole w1 n w2)
           @ replace_from ''{{'' x ''}}'' v (pre @ render_piece (Hole w1 n w2)) rest"
proof -
  have "match_here ''{{'' x ''}}'' (''{{'' @ (w1 @ n @ w2 @ ''}}'') @ rest) = None"
    using hole_no_match [OF x n ne w1 w2, of rest] by simp
  from replace_from_skip [OF this, of v pre] hole_inside_hd [OF w1 n w2]
    hole_inside_no_brace [OF w1 n w2]
  show ?thesis by simp
qed

lemma replace_from_match_append:
  assumes "match_here p x sfx (h @ rest) = Some rest" and "h \<noteq> []"
  shows "replace_from p x sfx v pre (h @ rest)
         = expand h pre rest v @ replace_from p x sfx v (pre @ h) rest"
proof -
  from assms(2) have "length rest < length (h @ rest)" by simp
  from replace_from_match [OF assms(1) this, of v pre] show ?thesis by simp
qed

lemma replace_from_key_hole:
  assumes x: "plain_name x" and w1: "blank w1" and w2: "blank w2"
    and v: "CHR ''$'' \<notin> set v"
  shows "replace_from ''{{'' x ''}}'' v pre (render_piece (Hole w1 x w2) @ rest)
         = v @ replace_from ''{{'' x ''}}'' v (pre @ render_piece (Hole w1 x w2)) rest"
proof -
  have "match_here ''{{'' x ''}}'' (render_piece (Hole w1 x w2) @ rest) = Some rest"
    using hole_match [OF x w1 w2, of rest] by simp
  from replace_from_match_append [OF this, of v pre] show ?thesis
    by (simp add: expand_no_dollar [OF v])
qed

lemma replace_from_template:
  assumes x: "plain_name x" and v: "CHR ''$'' \<notin> set (to_string v)"
  shows "wf_template ps \<Longrightarrow>
         replace_from ''{{'' x ''}}'' (to_string v) pre (render ps)
         = render (map (subst_piece [(x, v)]) ps)"
proof (induction ps arbitrary: pre)
  case Nil
  then show ?case by (simp add: render_Nil replace_from_Nil match_here_head)
next
  case (Cons p ps)
  then have wf: "wf_piece p" and rest: "wf_template ps"
    by (simp_all add: wf_template_def)
  note IH = Cons.IH [OF rest]
  show ?case
  proof (cases p)
    case (Lit s)
    with wf have "replace_from ''{{'' x ''}}'' (to_string v) pre (s @ render ps)
                  = s @ replace_from ''{{'' x ''}}'' (to_string v) (pre @ s) (render ps)"
      by (intro replace_from_untouched) simp_all
    with Lit IH show ?thesis by (simp add: render_Cons)
  next
    case (Hole w1 n w2)
    with wf have w1: "blank w1" and n: "plain_name n" and w2: "blank w2" by simp_all
    show ?thesis
    proof (cases "n = x")
      case True
      with Hole IH replace_from_key_hole [OF x w1 w2 v, of pre "render ps"] show ?thesis
        by (simp add: render_Cons)
    next
      case False
      with Hole IH replace_from_other_hole [OF x n False w1 w2, of "to_string v" pre "render ps"]
      show ?thesis by (simp add: render_Cons)
    qed
  qed
qed

lemma wf_template_subst:
  "wf_template ps \<Longrightarrow> wf_query q \<Longrightarrow> wf_template (map (subst_piece q) ps)"
proof (induction ps)
  case Nil
  then show ?case by (simp add: wf_template_def)
next
  case (Cons p ps)
  then have rest: "wf_template (map (subst_piece q) ps)" and wf: "wf_piece p"
    by (simp_all add: wf_template_def)
  have "wf_piece (subst_piece q p)"
  proof (cases p)
    case (Lit s)
    with wf show ?thesis by simp
  next
    case (Hole w1 n w2)
    show ?thesis
    proof (cases "map_of q n")
      case None
      with Hole wf show ?thesis by simp
    next
      case (Some v)
      then have "(n, v) \<in> set q" by (rule map_of_SomeD)
      with Cons.prems(2) have "CHR ''{'' \<notin> set (to_string v)"
        by (auto simp: wf_query_def list_all_iff)
      with Hole Some show ?thesis by simp
    qed
  qed
  with rest show ?case by (simp add: wf_template_def)
qed

lemma subst_piece_Cons:
  "subst_piece q (subst_piece [(x, v)] p) = subst_piece ((x, v) # q) p"
  by (cases p) auto

lemma fold_replace_template:
  "wf_template ps \<Longrightarrow> wf_query q \<Longrightarrow>
   fold (\<lambda>(varKey, v) all. replace_all ''{{'' varKey ''}}'' (to_string v) all) q (render ps)
   = fill q ps"
proof (induction q arbitrary: ps)
  case Nil
  have "map (subst_piece []) ps = ps"
    by (induction ps) (simp_all, metis piece.exhaust subst_piece.simps map_of.simps(1) option.simps(4))
  then show ?case by (simp add: fill_def)
next
  case (Cons kv q)
  obtain x v where kv: "kv = (x, v)" by (cases kv)
  with Cons.prems(2) have x: "plain_name x" and v: "CHR ''$'' \<notin> set (to_string v)"
    and b: "CHR ''{'' \<notin> set (to_string v)" and q: "wf_query q"
    by (simp_all add: wf_query_def)
  from x v b have one: "wf_query [(x, v)]" by (simp add: wf_query_def)
  let ?ps = "map (subst_piece [(x, v)]) ps"
  have "replace_all ''{{'' x ''}}'' (to_string v) (render ps) = render ?ps"
    unfolding replace_all_def by (rule replace_from_template [OF x v Cons.prems(1)])
  moreover have "fill q ?ps = fill ((x, v) # q) ps"
    by (simp add: fill_def subst_piece_Cons comp_def)
  moreover note Cons.IH [OF wf_template_subst [OF Cons.prems(1) one] q]
  ultimately show ?case using kv by simp
qed


lemma occurs_untouched:
  "p \<noteq> [] \<Longrightarrow> hd p \<notin> set u \<Longrightarrow> occurs p x sfx (u @ s) = occurs p x sfx s"
proof (induction u)
  case Nil
  then show ?case by simp
next
  case (Cons c u)
  then have "match_here p x sfx ((c # u) @ s) = None"
    by (intro match_here_head) auto
  with Cons show ?case by simp
qed

lemma occurs_skip:
  assumes "match_here ''{{'' x ''}}'' (''{{'' @ u @ rest) = None"
    and "u \<noteq> []" and "CHR ''{'' \<notin> set u"
  shows "occurs ''{{'' x ''}}'' (''{{'' @ u @ rest) = occurs ''{{'' x ''}}'' rest"
proof -
  from assms(1) have first: "match_here ''{{'' x ''}}'' (CHR ''{'' # CHR ''{'' # u @ rest) = None"
    by simp
  from assms(2,3) have second: "match_here ''{{'' x ''}}'' (CHR ''{'' # u @ rest) = None"
    by (intro second_brace_no_match) (auto simp: neq_Nil_conv)
  from assms(3) have "occurs ''{{'' x ''}}'' (u @ rest) = occurs ''{{'' x ''}}'' rest"
    by (intro occurs_untouched) simp_all
  with first second show ?thesis by simp
qed

lemma occurs_other_hole:
  assumes x: "plain_name x" and n: "plain_name n" and ne: "n \<noteq> x"
    and w1: "blank w1" and w2: "blank w2"
  shows "occurs ''{{'' x ''}}'' (render_piece (Hole w1 n w2) @ rest) = occurs ''{{'' x ''}}'' rest"
proof -
  have "match_here ''{{'' x ''}}'' (''{{'' @ (w1 @ n @ w2 @ ''}}'') @ rest) = None"
    using hole_no_match [OF x n ne w1 w2, of rest] by simp
  from occurs_skip [OF this] hole_inside_hd [OF w1 n w2] hole_inside_no_brace [OF w1 n w2]
  show ?thesis by simp
qed

text \<open>A template without a placeholder for \<open>x\<close> has no match of the pattern of \<open>x\<close>.\<close>

lemma no_occurs_template:
  assumes x: "plain_name x"
  shows "wf_template ps \<Longrightarrow> \<forall>w1 w2. Hole w1 x w2 \<notin> set ps \<Longrightarrow>
         \<not> occurs ''{{'' x ''}}'' (render ps)"
proof (induction ps)
  case Nil
  then show ?case by (simp add: render_Nil match_here_head)
next
  case (Cons p ps)
  then have wf: "wf_piece p" and IH: "\<not> occurs ''{{'' x ''}}'' (render ps)"
    by (simp_all add: wf_template_def)
  show ?case
  proof (cases p)
    case (Lit s)
    with wf have "occurs ''{{'' x ''}}'' (s @ render ps) = occurs ''{{'' x ''}}'' (render ps)"
      by (intro occurs_untouched) simp_all
    with Lit IH show ?thesis by (simp add: render_Cons)
  next
    case (Hole w1 n w2)
    with wf have w1: "blank w1" and n: "plain_name n" and w2: "blank w2" by simp_all
    from Hole Cons.prems(2) have "n \<noteq> x" by auto
    from occurs_other_hole [OF x n this w1 w2, of "render ps"] Hole IH
    show ?thesis by (simp add: render_Cons)
  qed
qed

lemma subst_piece_no_hole:
  "x \<in> fst ` set q \<Longrightarrow> Hole w1 x w2 \<notin> set (map (subst_piece q) ps)"
proof
  assume x: "x \<in> fst ` set q" and "Hole w1 x w2 \<in> set (map (subst_piece q) ps)"
  then obtain p where "subst_piece q p = Hole w1 x w2" by auto
  then have "map_of q x = None" by (cases p) (auto split: option.splits)
  with x show False by (simp add: map_of_eq_None_iff)
qed

lemma fold_replace_Nil:
  "fold (\<lambda>(varKey, v) all. replace_all ''{{'' varKey ''}}'' (to_string v) all) q [] = []"
  by (induction q) (auto simp: replace_all_def replace_from_Nil match_here_head)

text \<open>
  Claim C6, as the code has it.  With the default delimiters, for every text that is a
  template (literal runs without an opening brace, placeholders with optional white
  space inside the delimiters and a plain name) and every query whose keys are plain
  names and whose values have neither a dollar sign nor an opening brace in their
  string form: every placeholder whose name is a key of the query is replaced by the
  string form of its value, every placeholder whose name is not a key is left as
  written, and the pattern of no query key matches anywhere in the output.
\<close>

theorem interpolation_fills_template:
  assumes "delimiters cfg = None" and "wf_template ps" and "wf_query q"
  shows "interpolation cfg (Some (render ps)) (Some q) = fill q ps
       \<and> (\<forall>x \<in> fst ` set q. \<not> occurs ''{{'' x ''}}'' (fill q ps))"
proof -
  have f: "fold (\<lambda>(varKey, v) all. replace_all ''{{'' varKey ''}}'' (to_string v) all) q (render ps)
           = fill q ps"
    using assms(2,3) by (rule fold_replace_template)
  have "interpolation cfg (Some (render ps)) (Some q) = fill q ps"
  proof (cases "render ps = []")
    case True
    with f fold_replace_Nil [of q] show ?thesis by (simp add: interpolation_def)
  next
    case False
    with f assms(1) show ?thesis by (simp add: interpolation_def delims_def)
  qed
  moreover have "\<not> occurs ''{{'' x ''}}'' (fill q ps)" if x: "x \<in> fst ` set q" for x
  proof -
    from x assms(3) have "plain_name x" by (auto simp: wf_query_def list_all_iff)
    moreover note wf_template_subst [OF assms(2,3)]
    moreover from x have "\<forall>w1 w2. Hole w1 x w2 \<notin> set (map (subst_piece q) ps)"
      by (intro allI subst_piece_no_hole)
    ultimately show ?thesis unfolding fill_def by (rule no_occurs_template)
  qed
  ultimately show ?thesis by blast
qed

theorem interpolation_fills_template_witness:
  "delimiters default_config = None \<and> wf_template sample_template \<and> wf_query sample_query
   \<and> render sample_template = ''Dear {{name}}, you owe {{ sum }} to {{whom}} and {{name  }}.''
   \<and> interpolation default_config
        (Some ''Dear {{name}}, you owe {{ sum }} to {{whom}} and {{name  }}.'') (Some sample_query)
      = ''Dear Ana, you owe 12 to {{whom}} and Ana.''
   \<and> \<not> occurs ''{{'' ''name'' ''}}'' ''Dear Ana, you owe 12 to {{whom}} and Ana.''
   \<and> \<not> occurs ''{{'' ''sum'' ''}}'' ''Dear Ana, you owe 12 to {{whom}} and Ana.''"
proof -
  have d: "delimiters default_config = None" by (simp add: default_config_def)
  have t: "wf_template sample_template" by code_simp
  have q: "wf_query sample_query" by code_simp
  have r: "render sample_template = ''Dear {{name}}, you owe {{ sum }} to {{whom}} and {{name  }}.''"
    by code_simp
  have f: "fill sample_query sample_template = ''Dear Ana, you owe 12 to {{whom}} and Ana.''"
    by code_simp
  have k: "fst ` set sample_query = {''name'', ''sum''}"
    by (simp add: sample_query_def)
  from interpolation_fills_template [OF d t q] show ?thesis
    unfolding r f k using d t q r by simp
qed

text \<open>
  The claim as it was stated holds for every text and every query.  A placeholder
  written around another one is brought to light by the replacement; the value of an
  earlier key that is itself a placeholder is replaced by a later key; and a value
  such as \<^verbatim>\<open>$&\<close> is read by \<^verbatim>\<open>replace\<close> as a template.
\<close>

theorem interpolation_fills_template_counterexample:
  "interpolation default_config (Some ''{{ {{x}} }}'') (Some [(''x'', JStr ''x'')]) = ''{{ x }}''
   \<and> occurs ''{{'' ''x'' ''}}''
        (interpolation default_config (Some ''{{ {{x}} }}'') (Some [(''x'', JStr ''x'')]))
   \<and> interpolation default_config (Some ''{{a}}'')
        (Some [(''a'', JStr ''{{b}}''), (''b'', JStr ''Z'')]) = ''Z''
   \<and> interpolation default_config (Some ''{{x}}'') (Some [(''x'', JStr ''$&'')]) = ''{{x}}''
   \<and> occurs ''{{'' ''x'' ''}}''
        (interpolation default_config (Some ''{{x}}'') (Some [(''x'', JStr ''$&'')]))"
  by code_simp

end
